theory Spec2Isabelle
  imports Complex_Main
begin

section \<open>Shared types (types.ts) and the JavaScript runtime\<close>

text \<open>
  Errors thrown by the services. \<open>RegexSyntaxError p\<close> is the \<^verbatim>\<open>Error\<close> whose message
  names the offending pattern \<open>p\<close> (banned-words.service.ts, \<^verbatim>\<open>add\<close> and \<^verbatim>\<open>update\<close>);
  \<open>LoginFailed\<close> is thrown by \<^verbatim>\<open>ensureLoggedIn\<close>; \<open>UpstreamFailure\<close> is whatever the
  Pixiv client throws; \<open>DownloadFailure\<close> is whatever \<^verbatim>\<open>pixivImg\<close> throws.
\<close>

datatype error =
    RegexSyntaxError string
  | LoginFailed
  | UpstreamFailure string
  | DownloadFailure string

datatype BannedWordMatchType = Regex | Exact | Fuzzy

record BannedWord =
  id_w :: string
  pattern :: string
  matchType :: BannedWordMatchType
  enabled :: bool
  createdAt :: int

text \<open>
  The parts of the JavaScript runtime the banned-word service calls and that are not
  code of the repository: \<^verbatim>\<open>String.prototype.toLowerCase\<close>, and the regular-expression
  engine. \<open>newRegExp p\<close> is \<open>None\<close> when \<^verbatim>\<open>new RegExp(p)\<close> throws a SyntaxError, and
  otherwise \<open>Some t\<close> where \<open>t text\<close> is \<^verbatim>\<open>new RegExp(p, 'i').test(text)\<close> (the
  \<^verbatim>\<open>i\<close> flag does not change which patterns parse).
\<close>

record runtime =
  toLowerCase :: "string \<Rightarrow> string"
  newRegExp :: "string \<Rightarrow> (string \<Rightarrow> bool) option"

text \<open>\<^verbatim>\<open>String.prototype.includes\<close>: the pattern occurs as a contiguous substring.\<close>

fun includes_str :: "string \<Rightarrow> string \<Rightarrow> bool" where
  "includes_str [] p = (p = [])"
| "includes_str (c # cs) p = (take (length p) (c # cs) = p \<or> includes_str cs p)"

section \<open>Banned-word service (banned-words.service.ts)\<close>

record BannedWordsService =
  words :: "BannedWord list"
  loaded :: bool

text \<open>
  Modelled from the spec: \<^verbatim>\<open>pluginState.loadDataFile\<close> and \<^verbatim>\<open>pluginState.saveDataFile\<close>
  (module \<^verbatim>\<open>core/state\<close>, which is not among the sources) are a synchronous get and set
  on a JSON file, the get returning the given default when there is nothing to read.
  The data file \<^verbatim>\<open>banned-words.json\<close> is \<open>None\<close> when it does not exist, and the
  default passed by the service is \<^verbatim>\<open>[]\<close>; \<open>save\<close> is the service's method, which
  writes \<^verbatim>\<open>this.words\<close> to the file.
\<close>

type_synonym dataFile = "BannedWord list option"

definition loadDataFile :: "dataFile \<Rightarrow> BannedWord list" where
  "loadDataFile disk = (case disk of None \<Rightarrow> [] | Some ws \<Rightarrow> ws)"

definition ensureLoaded :: "dataFile \<Rightarrow> BannedWordsService \<Rightarrow> BannedWordsService" where
  "ensureLoaded disk s =
     (if \<not> loaded s then s\<lparr>words := loadDataFile disk, loaded := True\<rparr> else s)"

definition save :: "BannedWordsService \<Rightarrow> dataFile" where
  "save s = Some (words s)"

definition getAll :: "dataFile \<Rightarrow> BannedWordsService \<Rightarrow> BannedWord list \<times> BannedWordsService" where
  "getAll disk s = (let s1 = ensureLoaded disk s in (words s1, s1))"

text \<open>
  \<^verbatim>\<open>add(pattern, matchType)\<close>. \<open>uuid\<close> and \<open>now\<close> are the values \<^verbatim>\<open>randomUUID()\<close> and
  \<^verbatim>\<open>Date.now()\<close> return. The result carries the data file and the service state as
  they are when the call returns or throws.
\<close>

definition add ::
  "runtime \<Rightarrow> string \<Rightarrow> int \<Rightarrow> string \<Rightarrow> BannedWordMatchType \<Rightarrow>
   dataFile \<Rightarrow> BannedWordsService \<Rightarrow> (error + BannedWord) \<times> dataFile \<times> BannedWordsService" where
  "add rt uuid now pat mt disk s =
     (let s1 = ensureLoaded disk s in
      if mt = Regex \<and> newRegExp rt pat = None
      then (Inl (RegexSyntaxError pat), disk, s1)
      else
        (let word = \<lparr>id_w = uuid, pattern = pat, matchType = mt, enabled = True,
                     createdAt = now\<rparr>;
             s2 = s1\<lparr>words := words s1 @ [word]\<rparr>
         in (Inr word, save s2, s2)))"

text \<open>The \<^verbatim>\<open>updates\<close> argument of \<^verbatim>\<open>update\<close>: every field may be absent.\<close>

record Updates =
  pattern_u :: "string option"
  matchType_u :: "BannedWordMatchType option"
  enabled_u :: "bool option"

text \<open>
  \<^verbatim>\<open>this.words.find(w => w.id === id)\<close> returns the first rule object with that id,
  and the assignments mutate that object in place: the list changes at the position
  of the first rule with the id.
\<close>

fun mutateFirst :: "('a \<Rightarrow> bool) \<Rightarrow> ('a \<Rightarrow> 'a) \<Rightarrow> 'a list \<Rightarrow> 'a list" where
  "mutateFirst p f [] = []"
| "mutateFirst p f (x # xs) = (if p x then f x # xs else x # mutateFirst p f xs)"

definition applyUpdates :: "Updates \<Rightarrow> BannedWord \<Rightarrow> BannedWord" where
  "applyUpdates u word =
     (let w1 = (case pattern_u u of None \<Rightarrow> word | Some p \<Rightarrow> word\<lparr>pattern := p\<rparr>);
          w2 = (case matchType_u u of None \<Rightarrow> w1 | Some m \<Rightarrow> w1\<lparr>matchType := m\<rparr>)
      in (case enabled_u u of None \<Rightarrow> w2 | Some e \<Rightarrow> w2\<lparr>enabled := e\<rparr>))"

definition update ::
  "runtime \<Rightarrow> string \<Rightarrow> Updates \<Rightarrow> dataFile \<Rightarrow> BannedWordsService \<Rightarrow>
   (error + BannedWord option) \<times> dataFile \<times> BannedWordsService" where
  "update rt ident u disk s =
     (let s1 = ensureLoaded disk s in
      (case find (\<lambda>w. id_w w = ident) (words s1) of
         None \<Rightarrow> (Inr None, disk, s1)
       | Some word \<Rightarrow>
           (let newMatchType = (case matchType_u u of None \<Rightarrow> matchType word | Some m \<Rightarrow> m);
                newPattern = (case pattern_u u of None \<Rightarrow> pattern word | Some p \<Rightarrow> p)
            in if newMatchType = Regex \<and> newRegExp rt newPattern = None
               then (Inl (RegexSyntaxError newPattern), disk, s1)
               else
                 (let s2 = s1\<lparr>words :=
                             mutateFirst (\<lambda>w. id_w w = ident) (applyUpdates u) (words s1)\<rparr>
                  in (Inr (Some (applyUpdates u word)), save s2, s2)))))"

definition getEnabled :: "dataFile \<Rightarrow> BannedWordsService \<Rightarrow> BannedWord list \<times> BannedWordsService" where
  "getEnabled disk s = (let s1 = ensureLoaded disk s in (filter enabled (words s1), s1))"

text \<open>
  The body of the \<^verbatim>\<open>switch\<close> in \<^verbatim>\<open>matchText\<close>, with its \<^verbatim>\<open>try/catch\<close>: a regex rule
  whose pattern does not compile throws inside the \<^verbatim>\<open>try\<close>, is logged, and the loop
  goes on to the next rule.
\<close>

definition wordHits :: "runtime \<Rightarrow> string \<Rightarrow> string \<Rightarrow> BannedWord \<Rightarrow> bool" where
  "wordHits rt text lowerText word =
     (case matchType word of
        Exact \<Rightarrow> lowerText = toLowerCase rt (pattern word)
      | Fuzzy \<Rightarrow> includes_str lowerText (toLowerCase rt (pattern word))
      | Regex \<Rightarrow> (case newRegExp rt (pattern word) of
                    None \<Rightarrow> False
                  | Some test \<Rightarrow> test text))"

fun matchLoop :: "runtime \<Rightarrow> string \<Rightarrow> string \<Rightarrow> BannedWord list \<Rightarrow> BannedWord option" where
  "matchLoop rt text lowerText [] = None"
| "matchLoop rt text lowerText (word # rest) =
     (if wordHits rt text lowerText word then Some word
      else matchLoop rt text lowerText rest)"

definition matchText ::
  "runtime \<Rightarrow> dataFile \<Rightarrow> BannedWordsService \<Rightarrow> string \<Rightarrow> BannedWord option \<times> BannedWordsService" where
  "matchText rt disk s text =
     (let lowerText = toLowerCase rt text;
          (ws, s1) = getEnabled disk s
      in (matchLoop rt text lowerText ws, s1))"

definition checkKeyword ::
  "runtime \<Rightarrow> dataFile \<Rightarrow> BannedWordsService \<Rightarrow> string \<Rightarrow> BannedWord option \<times> BannedWordsService" where
  "checkKeyword rt disk s keyword = matchText rt disk s keyword"

text \<open>
  The matching rule of the specification, in its own words: exact and fuzzy compare
  the lower-cased text with the lower-cased pattern (equality, substring containment);
  regex applies the compiled, case-insensitive pattern to the text as given.
\<close>

definition specMatches :: "runtime \<Rightarrow> string \<Rightarrow> BannedWord \<Rightarrow> bool" where
  "specMatches rt text word =
     (case matchType word of
        Exact \<Rightarrow> toLowerCase rt text = toLowerCase rt (pattern word)
      | Fuzzy \<Rightarrow> (\<exists>before after.
                    toLowerCase rt text = before @ toLowerCase rt (pattern word) @ after)
      | Regex \<Rightarrow> (\<exists>test. newRegExp rt (pattern word) = Some test \<and> test text))"

section \<open>Global rate limit (message handler, isRateLimited)\<close>

definition windowMs :: int where
  "windowMs = 60000"

text \<open>
  The \<^verbatim>\<open>while\<close> loop that shifts the head of \<^verbatim>\<open>requestTimestamps\<close> as long as it is
  not later than \<^verbatim>\<open>now - windowMs\<close>.
\<close>

fun prune :: "int \<Rightarrow> int list \<Rightarrow> int list" where
  "prune now [] = []"
| "prune now (t # ts) = (if t \<le> now - windowMs then prune now ts else t # ts)"

text \<open>
  \<^verbatim>\<open>isRateLimited()\<close>: the first argument is \<^verbatim>\<open>config.rateLimitPerMinute\<close> (may be
  absent, then 60), \<open>now\<close> is \<^verbatim>\<open>Date.now()\<close> in milliseconds, the list is the
  module-level array \<^verbatim>\<open>requestTimestamps\<close>; the result is the returned flag and the
  array afterwards.
\<close>

definition isRateLimited :: "int option \<Rightarrow> int \<Rightarrow> int list \<Rightarrow> bool \<times> int list" where
  "isRateLimited rateLimitPerMinute now requestTimestamps =
     (let limit = (case rateLimitPerMinute of None \<Rightarrow> 60 | Some l \<Rightarrow> l) in
      if limit \<le> 0 then (False, requestTimestamps)
      else
        (let ts = prune now requestTimestamps in
         if int (length ts) \<ge> limit then (True, ts) else (False, ts @ [now])))"

section \<open>Image download (pixiv.service.ts, downloadImage)\<close>

text \<open>
  The functions of Node's \<^verbatim>\<open>os\<close> and \<^verbatim>\<open>path\<close> modules that \<^verbatim>\<open>downloadImage\<close> calls.
\<close>

record node =
  os_tmpdir :: string
  path_join :: "string \<Rightarrow> string \<Rightarrow> string"
  path_basename :: "string \<Rightarrow> string"

text \<open>
  The file system as \<^verbatim>\<open>downloadImage\<close> sees it: the paths that exist
  (\<^verbatim>\<open>fs.existsSync\<close>), and the network downloads performed so far, each with its URL
  and target path.
\<close>

record fsys =
  existing :: "string set"
  downloads :: "(string \<times> string) list"

text \<open>
  What one call of the library function \<^verbatim>\<open>pixivImg(url, path)\<close> does: it saves the
  file, or it throws, leaving a partial file behind or not.
\<close>

datatype fetched = Saved | Failed bool

definition tempDir :: "node \<Rightarrow> string" where
  "tempDir nd = path_join nd (os_tmpdir nd) ''napcat-pixiv-plugin''"

definition filePath :: "node \<Rightarrow> string \<Rightarrow> string" where
  "filePath nd imageUrl = path_join nd (tempDir nd) (path_basename nd imageUrl)"

text \<open>
  \<^verbatim>\<open>downloadImage(imageUrl)\<close>. \<open>pixivImg n url path\<close> is the outcome of the download
  issued when \<open>n\<close> downloads have been performed before.
\<close>

definition downloadImage ::
  "node \<Rightarrow> (nat \<Rightarrow> string \<Rightarrow> string \<Rightarrow> fetched) \<Rightarrow> string \<Rightarrow> fsys \<Rightarrow> (error + string) \<times> fsys" where
  "downloadImage nd pixivImg imageUrl fs =
     (let fs1 = (if tempDir nd \<notin> existing fs
                 then fs\<lparr>existing := insert (tempDir nd) (existing fs)\<rparr> else fs)
      in if filePath nd imageUrl \<in> existing fs1 then (Inr (filePath nd imageUrl), fs1)
         else
           (let fs2 = fs1\<lparr>downloads := downloads fs1 @ [(imageUrl, filePath nd imageUrl)]\<rparr>
            in case pixivImg (length (downloads fs1)) imageUrl (filePath nd imageUrl) of
                 Saved \<Rightarrow>
                   (Inr (filePath nd imageUrl),
                    fs2\<lparr>existing := insert (filePath nd imageUrl) (existing fs2)\<rparr>)
               | Failed leftover \<Rightarrow>
                   (Inl (DownloadFailure imageUrl),
                    if leftover
                    then fs2\<lparr>existing := insert (filePath nd imageUrl) (existing fs2)\<rparr>
                    else fs2)))"

section \<open>Filter and extraction (pixiv.service.ts, extractTopSafe)\<close>

text \<open>
  The fields of \<^verbatim>\<open>pluginState.config\<close> (interface \<^verbatim>\<open>PluginConfig\<close>) that the service
  reads; all four are optional. \<^verbatim>\<open>resultCount\<close> is a JavaScript number, taken here as
  an integer.
\<close>

record PluginConfig =
  pixivRefreshToken :: "string option"
  sensitiveEnabled :: "bool option"
  r18Enabled :: "bool option"
  resultCount :: "int option"

text \<open>
  A raw illustration as the Pixiv client returns it (typed \<^verbatim>\<open>any\<close> in the source), with
  the fields the service reads; every one of them may be absent. \<open>originalImageUrl\<close> is
  \<^verbatim>\<open>illust.metaSinglePage?.originalImageUrl\<close>, \<open>large\<close> and \<open>medium\<close> are
  \<^verbatim>\<open>illust.imageUrls?.large\<close> and \<^verbatim>\<open>illust.imageUrls?.medium\<close>, \<open>user_name\<close> is
  \<^verbatim>\<open>illust.user?.name\<close>, and \<open>tags\<close> holds each tag's \<^verbatim>\<open>name\<close>.
\<close>

record RawIllust =
  id_r :: int
  title_r :: "string option"
  user_name :: "string option"
  tags :: "string option list option"
  xRestrict :: "int option"
  sanityLevel :: "int option"
  sanity_level :: "int option"
  originalImageUrl :: "string option"
  large :: "string option"
  medium :: "string option"

record SafeIllust =
  id_s :: int
  title_s :: "string option"
  userName :: string
  imageUrl :: string

record ExtractResult =
  illusts :: "SafeIllust list"
  totalScanned :: nat
  r18Filtered :: nat
  sensitiveFiltered :: nat
  bannedFiltered :: nat

text \<open>JavaScript truthiness of an optional flag and of an optional string.\<close>

definition truthy :: "bool option \<Rightarrow> bool" where
  "truthy b = (b = Some True)"

definition nonEmpty :: "string option \<Rightarrow> bool" where
  "nonEmpty s = (case s of None \<Rightarrow> False | Some t \<Rightarrow> t \<noteq> [])"

text \<open>\<^verbatim>\<open>pluginState.config.resultCount ?? 3\<close>.\<close>

definition requiredCount :: "PluginConfig \<Rightarrow> int" where
  "requiredCount cfg = (case resultCount cfg of None \<Rightarrow> 3 | Some n \<Rightarrow> n)"

text \<open>
  What is outside the service and fixed during one call: the configuration, the
  JavaScript runtime, the banned-word data file, and the Pixiv client.
  \<open>searchIllust n keyword offset\<close> is the outcome of the \<open>n\<close>-th search call of the
  session (an error thrown, or the response's \<^verbatim>\<open>illusts\<close> field, which may be absent),
  \<open>illustRecommended n\<close> likewise; \<open>login token\<close> tells whether the login succeeds.
\<close>

record env =
  config :: PluginConfig
  js :: runtime
  bannedWordsFile :: dataFile
  searchIllust :: "nat \<Rightarrow> string \<Rightarrow> nat \<Rightarrow> error + RawIllust list option"
  illustRecommended :: "nat \<Rightarrow> error + RawIllust list option"
  login :: "string \<Rightarrow> bool"

text \<open>
  A value returned by \<^verbatim>\<open>Math.random()\<close>: a number that is at least 0 and less than 1,
  taken here as a real number.
\<close>

typedef unitReal = "{u::real. 0 \<le> u \<and> u < 1}"
  by (rule exI [of _ 0]) simp

text \<open>
  The mutable state a call works on: the stream of values that \<^verbatim>\<open>Math.random()\<close> will
  return, the banned-word service (it loads its list on first use), and the service's
  login flag.
\<close>

record world =
  mathRandom :: "nat \<Rightarrow> unitReal"
  bannedWords :: BannedWordsService
  isLoggedIn :: bool

text \<open>
  \<^verbatim>\<open>Math.floor(Math.random() * n)\<close> for an integer \<open>n\<close>: the next value of the stream
  times \<open>n\<close>, rounded down; the value is consumed.
\<close>

definition randomBelow :: "nat \<Rightarrow> world \<Rightarrow> nat \<times> world" where
  "randomBelow n w =
     (nat \<lfloor>Rep_unitReal (mathRandom w 0) * real n\<rfloor>,
      w\<lparr>mathRandom := (\<lambda>k. mathRandom w (Suc k))\<rparr>)"

text \<open>
  The Fisher-Yates loop \<^verbatim>\<open>for (let i = shuffled.length - 1; i > 0; i--)\<close>; the first
  argument is \<open>i\<close>.
\<close>

fun shuffleLoop :: "nat \<Rightarrow> 'a list \<Rightarrow> world \<Rightarrow> 'a list \<times> world" where
  "shuffleLoop 0 shuffled w = (shuffled, w)"
| "shuffleLoop (Suc k) shuffled w =
     (case randomBelow (Suc k + 1) w of
        (j, w1) \<Rightarrow> shuffleLoop k (shuffled[Suc k := shuffled ! j, j := shuffled ! Suc k]) w1)"

text \<open>\<^verbatim>\<open>checkIllust\<close>: the title first, then each tag name, stopping at the first hit.\<close>

fun checkTags ::
  "runtime \<Rightarrow> dataFile \<Rightarrow> BannedWordsService \<Rightarrow> string option list \<Rightarrow>
   BannedWord option \<times> BannedWordsService" where
  "checkTags rt disk s [] = (None, s)"
| "checkTags rt disk s (None # rest) = checkTags rt disk s rest"
| "checkTags rt disk s (Some name # rest) =
     (if name = [] then checkTags rt disk s rest
      else (case matchText rt disk s name of
              (Some hit, s1) \<Rightarrow> (Some hit, s1)
            | (None, s1) \<Rightarrow> checkTags rt disk s1 rest))"

definition checkIllust ::
  "runtime \<Rightarrow> dataFile \<Rightarrow> BannedWordsService \<Rightarrow> RawIllust \<Rightarrow>
   BannedWord option \<times> BannedWordsService" where
  "checkIllust rt disk s illust =
     (case (case title_r illust of
              None \<Rightarrow> (None, s)
            | Some t \<Rightarrow> if t = [] then (None, s) else matchText rt disk s t) of
        (Some hit, s1) \<Rightarrow> (Some hit, s1)
      | (None, s1) \<Rightarrow>
          (case tags illust of
             None \<Rightarrow> (None, s1)
           | Some ts \<Rightarrow> checkTags rt disk s1 ts))"

text \<open>
  The name used when \<^verbatim>\<open>illust.user?.name\<close> is absent or empty: the two-character
  literal of the source, in UTF-8.
\<close>

definition unknownUser :: string where
  "unknownUser = [char_of (0xE6::nat), char_of (0x9C::nat), char_of (0xAA::nat),
                  char_of (0xE7::nat), char_of (0x9F::nat), char_of (0xA5::nat)]"

text \<open>
  The image URL chosen for an illustration: the original if present, else
  \<^verbatim>\<open>large || medium\<close>; \<open>None\<close> when the chosen value is falsy
  (\<^verbatim>\<open>if (!imageUrl) continue\<close>).
\<close>

definition pickImageUrl :: "RawIllust \<Rightarrow> string option" where
  "pickImageUrl illust =
     (let chosen = (if nonEmpty (originalImageUrl illust) then originalImageUrl illust
                    else if nonEmpty (large illust) then large illust
                    else medium illust)
      in if nonEmpty chosen then chosen else None)"

text \<open>
  The two filter conditions on an item: \<^verbatim>\<open>illust.xRestrict !== 0 && illust.xRestrict !==
  undefined\<close>, and the local \<^verbatim>\<open>sanityLevel = illust.sanityLevel ?? illust.sanity_level ?? 0\<close>.
\<close>

definition isRestricted :: "RawIllust \<Rightarrow> bool" where
  "isRestricted illust = (xRestrict illust \<noteq> Some 0 \<and> xRestrict illust \<noteq> None)"

definition sanityOf :: "RawIllust \<Rightarrow> int" where
  "sanityOf illust =
     (case sanityLevel illust of
        Some l \<Rightarrow> l
      | None \<Rightarrow> (case sanity_level illust of Some l \<Rightarrow> l | None \<Rightarrow> 0))"

text \<open>\<^verbatim>\<open>illust.user?.name || \<close> the literal for an unknown author.\<close>

definition userNameOf :: "RawIllust \<Rightarrow> string" where
  "userNameOf illust =
     (case user_name illust of
        None \<Rightarrow> unknownUser
      | Some n \<Rightarrow> if n = [] then unknownUser else n)"

text \<open>
  The state of the scan loop: the source's \<^verbatim>\<open>result\<close> (field \<open>illusts\<close>) and its three
  counters, and two observation counters the source does not keep: \<open>noUrlDropped\<close>
  counts the passes through \<^verbatim>\<open>if (!imageUrl) continue\<close>, and \<open>notVisited\<close> is the
  number of items left in the batch when the loop leaves through
  \<^verbatim>\<open>if (result.length >= count) break\<close>.
\<close>

record ExtractScan = ExtractResult +
  noUrlDropped :: nat
  notVisited :: nat

fun extractLoop ::
  "env \<Rightarrow> RawIllust list \<Rightarrow> ExtractScan \<Rightarrow> BannedWordsService \<Rightarrow>
   ExtractScan \<times> BannedWordsService" where
  "extractLoop E [] a s = (a, s)"
| "extractLoop E (illust # rest) a s =
     (if int (length (illusts a)) \<ge> requiredCount (config E)
      then (a\<lparr>notVisited := Suc (length rest)\<rparr>, s)
      else if \<not> truthy (r18Enabled (config E)) \<and> isRestricted illust
      then extractLoop E rest (a\<lparr>r18Filtered := r18Filtered a + 1\<rparr>) s
      else if \<not> truthy (sensitiveEnabled (config E)) \<and> sanityOf illust \<ge> 4
      then extractLoop E rest (a\<lparr>sensitiveFiltered := sensitiveFiltered a + 1\<rparr>) s
      else
        (case checkIllust (js E) (bannedWordsFile E) s illust of
           (Some bannedHit, s1) \<Rightarrow>
             extractLoop E rest (a\<lparr>bannedFiltered := bannedFiltered a + 1\<rparr>) s1
         | (None, s1) \<Rightarrow>
             (case pickImageUrl illust of
                None \<Rightarrow> extractLoop E rest (a\<lparr>noUrlDropped := noUrlDropped a + 1\<rparr>) s1
              | Some url \<Rightarrow>
                  extractLoop E rest
                    (a\<lparr>illusts := illusts a @
                         [\<lparr>id_s = id_r illust, title_s = title_r illust,
                           userName = userNameOf illust, imageUrl = url\<rparr>]\<rparr>) s1)))"

text \<open>
  \<open>extractScan\<close> is \<^verbatim>\<open>extractTopSafe(illusts, shuffle)\<close> with the observation counters
  kept; \<open>extractTopSafe\<close> returns what the source returns.
\<close>

definition extractScan :: "env \<Rightarrow> world \<Rightarrow> RawIllust list \<Rightarrow> bool \<Rightarrow> ExtractScan \<times> world" where
  "extractScan E w batch shuffle =
     (case (if shuffle \<and> length batch > 0 then shuffleLoop (length batch - 1) batch w
            else (batch, w)) of
        (xs, w1) \<Rightarrow>
          (case extractLoop E xs
                  \<lparr>illusts = [], totalScanned = length xs, r18Filtered = 0,
                   sensitiveFiltered = 0, bannedFiltered = 0, noUrlDropped = 0, notVisited = 0\<rparr>
                  (bannedWords w1) of
             (a, s) \<Rightarrow> (a, w1\<lparr>bannedWords := s\<rparr>)))"

definition extractTopSafe :: "env \<Rightarrow> world \<Rightarrow> RawIllust list \<Rightarrow> bool \<Rightarrow> ExtractResult \<times> world" where
  "extractTopSafe E w batch shuffle =
     (case extractScan E w batch shuffle of
        (a, w1) \<Rightarrow>
          (\<lparr>illusts = illusts a, totalScanned = totalScanned a, r18Filtered = r18Filtered a,
            sensitiveFiltered = sensitiveFiltered a, bannedFiltered = bannedFiltered a\<rparr>, w1))"

section \<open>Acquisition (pixiv.service.ts, searchTop3 and getRandomTop3)\<close>

text \<open>
  \<^verbatim>\<open>init\<close> and \<^verbatim>\<open>ensureLoggedIn\<close>: without a refresh token nothing is attempted; a
  login that throws leaves the flag false; \<^verbatim>\<open>ensureLoggedIn\<close> throws when the flag is
  still false afterwards.
\<close>

definition init :: "env \<Rightarrow> world \<Rightarrow> world" where
  "init E w =
     (if \<not> nonEmpty (pixivRefreshToken (config E)) then w
      else (case pixivRefreshToken (config E) of
              None \<Rightarrow> w
            | Some token \<Rightarrow> w\<lparr>isLoggedIn := login E token\<rparr>))"

definition ensureLoggedIn :: "env \<Rightarrow> world \<Rightarrow> error option \<times> world" where
  "ensureLoggedIn E w =
     (if \<not> isLoggedIn w
      then (let w1 = init E w in
            if \<not> isLoggedIn w1 then (Some LoginFailed, w1) else (None, w1))
      else (None, w))"

text \<open>
  \<^verbatim>\<open>collectedMap\<close> is a JavaScript \<^verbatim>\<open>Map\<close> from id to illustration. Its entries are
  kept in insertion order, and the code only ever adds a key that is absent, so it is
  the list of its entries in the order they were added.
\<close>

type_synonym pool = "(int \<times> SafeIllust) list"

definition has :: "pool \<Rightarrow> int \<Rightarrow> bool" where
  "has m k = (k \<in> fst ` set m)"

text \<open>
  The merge loop \<^verbatim>\<open>for (const illust of currentResult.illusts)
  if (!collectedMap.has(illust.id)) collectedMap.set(illust.id, illust)\<close>.
\<close>

fun mergeInto :: "pool \<Rightarrow> SafeIllust list \<Rightarrow> pool" where
  "mergeInto m [] = m"
| "mergeInto m (illust # rest) =
     mergeInto (if \<not> has m (id_s illust) then m @ [(id_s illust, illust)] else m) rest"

text \<open>\<^verbatim>\<open>Array.prototype.slice(0, end)\<close>: a negative \<open>end\<close> counts from the end.\<close>

definition slice0 :: "'a list \<Rightarrow> int \<Rightarrow> 'a list" where
  "slice0 xs e = (if e < 0 then take (nat (int (length xs) + e)) xs else take (nat e) xs)"

text \<open>
  The local variables both functions carry across attempts: the pool and the four
  running totals; \<^verbatim>\<open>searchTop3\<close> has \<^verbatim>\<open>offsetLevel\<close> in addition.
\<close>

record Session =
  collectedMap :: pool
  totalScannedSum :: nat
  totalR18Filtered :: nat
  totalSensitiveFiltered :: nat
  totalBannedFiltered :: nat

record SearchSession = Session +
  offsetLevel :: nat

text \<open>The merge into the pool and the four \<^verbatim>\<open>+=\<close> on the totals.\<close>

definition accumulate ::
  "ExtractResult \<Rightarrow> 'a Session_scheme \<Rightarrow> 'a Session_scheme" where
  "accumulate currentResult st =
     st\<lparr>collectedMap := mergeInto (collectedMap st) (illusts currentResult),
        totalScannedSum := totalScannedSum st + totalScanned currentResult,
        totalR18Filtered := totalR18Filtered st + r18Filtered currentResult,
        totalSensitiveFiltered := totalSensitiveFiltered st + sensitiveFiltered currentResult,
        totalBannedFiltered := totalBannedFiltered st + bannedFiltered currentResult\<rparr>"

text \<open>
  The object both return statements build:
  \<^verbatim>\<open>Array.from(collectedMap.values()).slice(0, requiredCount)\<close> with the totals.
\<close>

definition collected :: "env \<Rightarrow> 'a Session_scheme \<Rightarrow> ExtractResult" where
  "collected E st =
     \<lparr>illusts = slice0 (map snd (collectedMap st)) (requiredCount (config E)),
      totalScanned = totalScannedSum st,
      r18Filtered = totalR18Filtered st,
      sensitiveFiltered = totalSensitiveFiltered st,
      bannedFiltered = totalBannedFiltered st\<rparr>"

text \<open>
  How one pass through the body of the retry loop ends: by \<^verbatim>\<open>return\<close>, by an error
  thrown, by \<^verbatim>\<open>break\<close>, or by falling through to the next attempt.
\<close>

datatype 's step = Return ExtractResult | Throw error | Break 's | Continue 's

text \<open>
  The record of one attempt, for stating what a session did: the raw batch the upstream
  call returned (after \<^verbatim>\<open>|| []\<close>; \<open>None\<close> when the call threw), the result of
  \<^verbatim>\<open>extractTopSafe\<close> on it, and the size of the pool after the merge. For a search
  attempt also the offset ceiling and the offset requested, the two values the source
  writes to its debug log, and the value of \<^verbatim>\<open>Math.random()\<close> the offset was computed
  from (\<open>None\<close> when the ceiling is 0 and \<^verbatim>\<open>Math.random()\<close> is not called).
\<close>

record Attempt =
  raw :: "RawIllust list option"
  currentResult :: ExtractResult
  poolSize :: nat

record SearchAttempt = Attempt +
  maxOffset :: nat
  randomOffset :: nat
  drawn :: "unitReal option"

definition emptyResult :: ExtractResult where
  "emptyResult = \<lparr>illusts = [], totalScanned = 0, r18Filtered = 0, sensitiveFiltered = 0,
                  bannedFiltered = 0\<rparr>"

definition offsetLimits :: "nat list" where
  "offsetLimits = [300, 200, 100, 50, 0]"

definition maxRetriesSearch :: nat where
  "maxRetriesSearch = 5"

definition maxRetriesRandom :: nat where
  "maxRetriesRandom = 3"

text \<open>The body of the \<^verbatim>\<open>for\<close> loop of \<^verbatim>\<open>searchTop3\<close>, for attempt number \<open>attempt\<close>.\<close>

definition searchAttempt ::
  "env \<Rightarrow> string \<Rightarrow> nat \<Rightarrow> SearchSession \<Rightarrow> world \<Rightarrow>
   SearchSession step \<times> world \<times> SearchAttempt" where
  "searchAttempt E keyword attempt st w =
     (let ceiling = offsetLimits ! min (offsetLevel st) (length offsetLimits - 1) in
      case (if ceiling > 0 then randomBelow (ceiling + 1) w else (0, w)) of
        (offset, w1) \<Rightarrow>
          (case searchIllust E attempt keyword offset of
             Inl err \<Rightarrow>
               (Throw err, w1,
                \<lparr>raw = None, currentResult = emptyResult,
                 poolSize = length (collectedMap st),
                 maxOffset = ceiling, randomOffset = offset,
                 drawn = (if ceiling > 0 then Some (mathRandom w 0) else None)\<rparr>)
           | Inr response \<Rightarrow>
               (let batch = (case response of None \<Rightarrow> [] | Some xs \<Rightarrow> xs) in
                case extractTopSafe E w1 batch True of
                  (cur, w2) \<Rightarrow>
                    (let st1 = accumulate cur st;
                         entry = \<lparr>raw = Some batch, currentResult = cur,
                                  poolSize = length (collectedMap st1),
                                  maxOffset = ceiling, randomOffset = offset,
                                  drawn = (if ceiling > 0 then Some (mathRandom w 0)
                                           else None)\<rparr>
                     in if int (length (collectedMap st1)) \<ge> requiredCount (config E)
                        then (Return (collected E st1), w2, entry)
                        else if length batch = 0
                        then (if ceiling = 0
                              then (Break (st1\<lparr>offsetLevel := offsetLevel st1 + 1\<rparr>), w2, entry)
                              else (Continue (st1\<lparr>offsetLevel := offsetLevel st1 + 1\<rparr>), w2, entry))
                        else (Continue st1, w2, entry)))))"

text \<open>
  The \<^verbatim>\<open>for\<close> loop of \<^verbatim>\<open>searchTop3\<close> and the statements after it. The third component
  of the result lists the attempts made, in order.
\<close>

function searchLoop ::
  "env \<Rightarrow> string \<Rightarrow> nat \<Rightarrow> SearchSession \<Rightarrow> world \<Rightarrow>
   (error + ExtractResult) \<times> world \<times> SearchAttempt list" where
  "searchLoop E keyword attempt st w =
     (if attempt < maxRetriesSearch
      then (case searchAttempt E keyword attempt st w of
              (Return r, w1, entry) \<Rightarrow> (Inr r, w1, [entry])
            | (Throw err, w1, entry) \<Rightarrow> (Inl err, w1, [entry])
            | (Break st1, w1, entry) \<Rightarrow> (Inr (collected E st1), w1, [entry])
            | (Continue st1, w1, entry) \<Rightarrow>
                (case searchLoop E keyword (attempt + 1) st1 w1 of
                   (r, w2, entries) \<Rightarrow> (r, w2, entry # entries)))
      else (Inr (collected E st), w, []))"
  by pat_completeness auto
termination
  by (relation "measure (\<lambda>(E, keyword, attempt, st, w). maxRetriesSearch - attempt)") auto

definition searchTop3 ::
  "env \<Rightarrow> string \<Rightarrow> world \<Rightarrow> (error + ExtractResult) \<times> world \<times> SearchAttempt list" where
  "searchTop3 E keyword w =
     (case ensureLoggedIn E w of
        (Some err, w1) \<Rightarrow> (Inl err, w1, [])
      | (None, w1) \<Rightarrow>
          searchLoop E keyword 0
            \<lparr>collectedMap = [], totalScannedSum = 0, totalR18Filtered = 0,
             totalSensitiveFiltered = 0, totalBannedFiltered = 0, offsetLevel = 0\<rparr> w1)"

text \<open>The body of the \<^verbatim>\<open>for\<close> loop of \<^verbatim>\<open>getRandomTop3\<close>.\<close>

definition randomAttempt ::
  "env \<Rightarrow> nat \<Rightarrow> Session \<Rightarrow> world \<Rightarrow> Session step \<times> world \<times> Attempt" where
  "randomAttempt E attempt st w =
     (case illustRecommended E attempt of
        Inl err \<Rightarrow>
          (Throw err, w,
           \<lparr>raw = None, currentResult = emptyResult, poolSize = length (collectedMap st)\<rparr>)
      | Inr response \<Rightarrow>
          (let batch = (case response of None \<Rightarrow> [] | Some xs \<Rightarrow> xs) in
           case extractTopSafe E w batch True of
             (cur, w1) \<Rightarrow>
               (let st1 = accumulate cur st;
                    entry = \<lparr>raw = Some batch, currentResult = cur,
                             poolSize = length (collectedMap st1)\<rparr>;
                    totalFiltered = r18Filtered cur + sensitiveFiltered cur + bannedFiltered cur
                in if int (length (collectedMap st1)) \<ge> requiredCount (config E)
                   then (Return (collected E st1), w1, entry)
                   else if length (illusts cur) = 0 \<and> totalFiltered = 0
                   then (Break st1, w1, entry)
                   else (Continue st1, w1, entry))))"

function randomLoop ::
  "env \<Rightarrow> nat \<Rightarrow> Session \<Rightarrow> world \<Rightarrow> (error + ExtractResult) \<times> world \<times> Attempt list" where
  "randomLoop E attempt st w =
     (if attempt < maxRetriesRandom
      then (case randomAttempt E attempt st w of
              (Return r, w1, entry) \<Rightarrow> (Inr r, w1, [entry])
            | (Throw err, w1, entry) \<Rightarrow> (Inl err, w1, [entry])
            | (Break st1, w1, entry) \<Rightarrow> (Inr (collected E st1), w1, [entry])
            | (Continue st1, w1, entry) \<Rightarrow>
                (case randomLoop E (attempt + 1) st1 w1 of
                   (r, w2, entries) \<Rightarrow> (r, w2, entry # entries)))
      else (Inr (collected E st), w, []))"
  by pat_completeness auto
termination
  by (relation "measure (\<lambda>(E, attempt, st, w). maxRetriesRandom - attempt)") auto

definition getRandomTop3 ::
  "env \<Rightarrow> world \<Rightarrow> (error + ExtractResult) \<times> world \<times> Attempt list" where
  "getRandomTop3 E w =
     (case ensureLoggedIn E w of
        (Some err, w1) \<Rightarrow> (Inl err, w1, [])
      | (None, w1) \<Rightarrow>
          randomLoop E 0
            \<lparr>collectedMap = [], totalScannedSum = 0, totalR18Filtered = 0,
             totalSensitiveFiltered = 0, totalBannedFiltered = 0\<rparr> w1)"

section \<open>Notions used to state the properties\<close>

text \<open>
  The number of items of a batch the scan has accounted for: rejected by one of the
  three filters, accepted, or dropped for having no image URL.
\<close>

definition tally :: "ExtractScan \<Rightarrow> nat" where
  "tally a = r18Filtered a + sensitiveFiltered a + bannedFiltered a + length (illusts a) +
             noUrlDropped a"

text \<open>All items accepted during a session, attempt after attempt, in order.\<close>

definition acceptedItems :: "'a Attempt_scheme list \<Rightarrow> SafeIllust list" where
  "acceptedItems entries = concat (map (\<lambda>e. illusts (currentResult e)) entries)"





section \<open>Example environment\<close>

text \<open>
  A small concrete runtime for the examples: lower-casing of the ASCII letters, and a
  regular-expression engine that rejects the pattern \<^verbatim>\<open>(\<close> and otherwise knows the
  pattern \<^verbatim>\<open>^a\<close> (text starting with a or A) and treats any other pattern as
  matching nothing.
\<close>

definition asciiLower :: "char \<Rightarrow> char" where
  "asciiLower c =
     (case map_of (zip ''ABCDEFGHIJKLMNOPQRSTUVWXYZ'' ''abcdefghijklmnopqrstuvwxyz'') c of
        None \<Rightarrow> c
      | Some d \<Rightarrow> d)"

definition demoRuntime :: runtime where
  "demoRuntime =
     \<lparr>toLowerCase = map asciiLower,
      newRegExp = (\<lambda>p. if p = ''('' then None
                        else if p = ''^a'' then Some (\<lambda>t. t \<noteq> [] \<and> asciiLower (hd t) = CHR ''a'')
                        else Some (\<lambda>t. False))\<rparr>"

definition rule :: "string \<Rightarrow> string \<Rightarrow> BannedWordMatchType \<Rightarrow> bool \<Rightarrow> BannedWord" where
  "rule i p m e = \<lparr>id_w = i, pattern = p, matchType = m, enabled = e, createdAt = 0\<rparr>"

text \<open>A POSIX-like \<^verbatim>\<open>path\<close> module for the examples.\<close>

definition demoNode :: node where
  "demoNode =
     \<lparr>os_tmpdir = ''/tmp'',
      path_join = (\<lambda>a b. a @ ''/'' @ b),
      path_basename = (\<lambda>u. rev (takeWhile (\<lambda>c. c \<noteq> CHR ''/'') (rev u)))\<rparr>"

text \<open>
  Illustrations for the examples: \<open>illustWith i x u\<close> has id \<open>i\<close>, maturity flag \<open>x\<close>,
  sanity level 2, no tags, and the optional large image URL \<open>u\<close>.
\<close>

definition illustWith :: "int \<Rightarrow> int \<Rightarrow> string option \<Rightarrow> RawIllust" where
  "illustWith i x u =
     \<lparr>id_r = i, title_r = Some ''work'', user_name = Some ''artist'', tags = Some [],
      xRestrict = Some x, sanityLevel = Some 2, sanity_level = None,
      originalImageUrl = None, large = u, medium = None\<rparr>"

definition safeWith :: "int \<Rightarrow> string \<Rightarrow> SafeIllust" where
  "safeWith i u = \<lparr>id_s = i, title_s = Some ''work'', userName = ''artist'', imageUrl = u\<rparr>"

text \<open>
  An environment with result count \<open>n\<close>, no banned words, a login that succeeds, and
  the given upstream responses; and a world that is logged in and in which
  \<^verbatim>\<open>Math.random()\<close> always returns 0.
\<close>

definition demoEnv ::
  "int option \<Rightarrow> (nat \<Rightarrow> string \<Rightarrow> nat \<Rightarrow> error + RawIllust list option) \<Rightarrow>
   (nat \<Rightarrow> error + RawIllust list option) \<Rightarrow> env" where
  "demoEnv n search recommended =
     \<lparr>config = \<lparr>pixivRefreshToken = Some ''token'', sensitiveEnabled = None,
                 r18Enabled = None, resultCount = n\<rparr>,
      js = demoRuntime, bannedWordsFile = None,
      searchIllust = search, illustRecommended = recommended, login = (\<lambda>t. True)\<rparr>"

definition demoWorld :: world where
  "demoWorld = \<lparr>mathRandom = (\<lambda>k. Abs_unitReal 0), bannedWords = \<lparr>words = [], loaded = False\<rparr>,
                isLoggedIn = True\<rparr>"

definition noSearch :: "nat \<Rightarrow> string \<Rightarrow> nat \<Rightarrow> error + RawIllust list option" where
  "noSearch n keyword offset = Inr None"

definition noRecommended :: "nat \<Rightarrow> error + RawIllust list option" where
  "noRecommended n = Inr None"

section \<open>Properties of the banned-word service\<close>

lemma includes_iff: "includes_str s p \<longleftrightarrow> (\<exists>before after. s = before @ p @ after)"
proof (induction s)
  case Nil
  then show ?case by auto
next
  case (Cons c cs)
  show ?case
  proof
    assume "includes_str (c # cs) p"
    then consider "take (length p) (c # cs) = p" | "includes_str cs p" by auto
    then show "\<exists>before after. c # cs = before @ p @ after"
    proof cases
      case 1
      then have "c # cs = [] @ p @ drop (length p) (c # cs)"
        by (metis append_Nil append_take_drop_id)
      then show ?thesis by blast
    next
      case 2
      then obtain b a where "cs = b @ p @ a" using Cons.IH by blast
      then have "c # cs = (c # b) @ p @ a" by simp
      then show ?thesis by blast
    qed
  next
    assume "\<exists>before after. c # cs = before @ p @ after"
    then obtain b a where ba: "c # cs = b @ p @ a" by blast
    show "includes_str (c # cs) p"
    proof (cases b)
      case Nil
      then have "take (length p) (c # cs) = p" using ba by simp
      then show ?thesis by simp
    next
      case (Cons b0 bs)
      then have "cs = bs @ p @ a" using ba by simp
      then have "includes_str cs p" using Cons.IH by blast
      then show ?thesis by simp
    qed
  qed
qed

lemma wordHits_spec: "wordHits rt text (toLowerCase rt text) word = specMatches rt text word"
  by (cases "matchType word")
     (auto simp: wordHits_def specMatches_def includes_iff split: option.splits)

lemma matchLoop_find:
  "matchLoop rt text lt (filter enabled ws) = find (\<lambda>w. enabled w \<and> wordHits rt text lt w) ws"
  by (induction ws) auto

lemma checkKeyword_find:
  "fst (checkKeyword rt disk s keyword) =
     find (\<lambda>w. enabled w \<and> specMatches rt keyword w) (fst (getAll disk s))"
  by (simp add: checkKeyword_def matchText_def getEnabled_def getAll_def Let_def
      matchLoop_find wordHits_spec)

text \<open>
  C6. For every rule set and every text, \<open>checkKeyword\<close> returns the first rule of the
  stored list that is enabled and whose pattern matches the text in the sense of
  \<open>specMatches\<close> (exact and fuzzy on the lower-cased text and pattern, regex
  case-insensitively on the text as given): the rule at some position \<open>i\<close> such that no
  earlier position holds an enabled matching rule. It returns none exactly when no
  enabled rule of the list matches. A returned rule is always enabled, so a disabled rule
  is never the answer.
\<close>

theorem checkKeyword_first_enabled_match:
  "(let ws = fst (getAll disk s) in
    case fst (checkKeyword rt disk s keyword) of
      None \<Rightarrow> (\<forall>w \<in> set ws. \<not> (enabled w \<and> specMatches rt keyword w))
    | Some w \<Rightarrow>
        (\<exists>i < length ws. ws ! i = w \<and> enabled w \<and> specMatches rt keyword w \<and>
           (\<forall>j < i. \<not> (enabled (ws ! j) \<and> specMatches rt keyword (ws ! j)))))"
proof (cases "fst (checkKeyword rt disk s keyword)")
  case None
  then have "find (\<lambda>w. enabled w \<and> specMatches rt keyword w) (fst (getAll disk s)) = None"
    by (simp add: checkKeyword_find)
  then have "\<forall>w \<in> set (fst (getAll disk s)). \<not> (enabled w \<and> specMatches rt keyword w)"
    by (simp add: find_None_iff)
  then show ?thesis using None by simp
next
  case (Some w)
  then have "find (\<lambda>w. enabled w \<and> specMatches rt keyword w) (fst (getAll disk s)) = Some w"
    by (simp add: checkKeyword_find)
  then obtain i where i: "i < length (fst (getAll disk s))"
      "enabled (fst (getAll disk s) ! i) \<and> specMatches rt keyword (fst (getAll disk s) ! i)"
      "w = fst (getAll disk s) ! i"
      "\<forall>j < i. \<not> (enabled (fst (getAll disk s) ! j) \<and>
                   specMatches rt keyword (fst (getAll disk s) ! j))"
    unfolding find_Some_iff by blast
  then have "\<exists>i < length (fst (getAll disk s)). fst (getAll disk s) ! i = w \<and> enabled w \<and>
      specMatches rt keyword w \<and>
      (\<forall>j < i. \<not> (enabled (fst (getAll disk s) ! j) \<and>
                  specMatches rt keyword (fst (getAll disk s) ! j)))"
    by blast
  then show ?thesis using Some by simp
qed

theorem checkKeyword_first_enabled_match_witness:
  "fst (checkKeyword demoRuntime
          (Some [rule ''1'' ''blood'' Fuzzy False, rule ''2'' ''^a'' Regex True,
                 rule ''3'' ''Scene'' Fuzzy True])
          \<lparr>words = [], loaded = False\<rparr> ''A Blood scene'')
     = Some (rule ''2'' ''^a'' Regex True)
   \<and> enabled (rule ''2'' ''^a'' Regex True)
   \<and> specMatches demoRuntime ''A Blood scene'' (rule ''2'' ''^a'' Regex True)
   \<and> \<not> enabled (rule ''1'' ''blood'' Fuzzy False)
   \<and> specMatches demoRuntime ''A Blood scene'' (rule ''1'' ''blood'' Fuzzy False)"
proof -
  let ?disk = "Some [rule ''1'' ''blood'' Fuzzy False, rule ''2'' ''^a'' Regex True,
                     rule ''3'' ''Scene'' Fuzzy True]"
  let ?s = "\<lparr>words = [], loaded = False\<rparr>"
  have run: "fst (checkKeyword demoRuntime ?disk ?s ''A Blood scene'')
               = Some (rule ''2'' ''^a'' Regex True)"
    by (simp add: checkKeyword_def matchText_def getEnabled_def ensureLoaded_def
        loadDataFile_def rule_def wordHits_def demoRuntime_def asciiLower_def Let_def)
  have off: "\<not> enabled (rule ''1'' ''blood'' Fuzzy False)"
    by (simp add: rule_def)
  have "includes_str (map asciiLower ''A Blood scene'') (map asciiLower ''blood'')"
    by (simp add: asciiLower_def)
  then have fuzzy: "specMatches demoRuntime ''A Blood scene'' (rule ''1'' ''blood'' Fuzzy False)"
    by (simp add: specMatches_def rule_def demoRuntime_def includes_iff)
  show ?thesis
    using checkKeyword_first_enabled_match [of ?disk ?s demoRuntime "''A Blood scene''"]
      run off fuzzy
    by (auto simp: Let_def)
qed

lemma find_None_image: "find (\<lambda>w. f w = k) ws = None \<longleftrightarrow> k \<notin> f ` set ws"
  by (auto simp: find_None_iff)

text \<open>
  C7, as the code has it. When the pattern does not compile, \<open>add\<close> with match type
  regex throws the error naming the pattern, and \<open>update\<close> whose resulting match type
  is regex and whose resulting pattern is that pattern throws it too, provided a rule
  with the given id exists; for an id that no rule has, \<open>update\<close> returns null and
  throws nothing. In every one of these cases the data file is unchanged, the rule list
  (what \<open>getAll\<close> returns) is unchanged, and a service that had already loaded its list
  is unchanged as a whole.
\<close>

theorem invalid_regex_leaves_rules_unchanged:
  "newRegExp rt pat = None \<Longrightarrow>
   (case add rt uuid now pat Regex disk s of (r, disk', s') \<Rightarrow>
      r = Inl (RegexSyntaxError pat) \<and> disk' = disk \<and>
      fst (getAll disk' s') = fst (getAll disk s) \<and> (loaded s \<longrightarrow> s' = s))
   \<and>
   (case update rt ident \<lparr>pattern_u = Some pat, matchType_u = Some Regex, enabled_u = e\<rparr> disk s
    of (r, disk', s') \<Rightarrow>
      r = (if ident \<in> id_w ` set (fst (getAll disk s))
           then Inl (RegexSyntaxError pat) else Inr None) \<and>
      disk' = disk \<and>
      fst (getAll disk' s') = fst (getAll disk s) \<and> (loaded s \<longrightarrow> s' = s))"
proof -
  assume bad: "newRegExp rt pat = None"
  have a: "case add rt uuid now pat Regex disk s of (r, disk', s') \<Rightarrow>
      r = Inl (RegexSyntaxError pat) \<and> disk' = disk \<and>
      fst (getAll disk' s') = fst (getAll disk s) \<and> (loaded s \<longrightarrow> s' = s)"
    using bad by (simp add: add_def getAll_def ensureLoaded_def Let_def)
  have u: "case update rt ident \<lparr>pattern_u = Some pat, matchType_u = Some Regex, enabled_u = e\<rparr>
                disk s of (r, disk', s') \<Rightarrow>
      r = (if ident \<in> id_w ` set (fst (getAll disk s))
           then Inl (RegexSyntaxError pat) else Inr None) \<and>
      disk' = disk \<and>
      fst (getAll disk' s') = fst (getAll disk s) \<and> (loaded s \<longrightarrow> s' = s)"
  proof (cases "find (\<lambda>w. id_w w = ident) (words (ensureLoaded disk s))")
    case None
    then have "ident \<notin> id_w ` set (words (ensureLoaded disk s))"
      by (simp add: find_None_image)
    then show ?thesis
      using None by (simp add: update_def getAll_def Let_def) (simp add: ensureLoaded_def)
  next
    case (Some word)
    then have "ident \<in> id_w ` set (words (ensureLoaded disk s))"
      using find_None_image [of id_w ident "words (ensureLoaded disk s)"] by simp
    then show ?thesis
      using Some bad by (simp add: update_def getAll_def Let_def) (simp add: ensureLoaded_def)
  qed
  show ?thesis using a u by simp
qed

theorem invalid_regex_leaves_rules_unchanged_witness:
  "newRegExp demoRuntime ''('' = None
   \<and> add demoRuntime ''u1'' 1000 ''('' Regex (Some [rule ''7'' ''cat'' Exact True])
         \<lparr>words = [], loaded = False\<rparr>
       = (Inl (RegexSyntaxError ''(''), Some [rule ''7'' ''cat'' Exact True],
          \<lparr>words = [rule ''7'' ''cat'' Exact True], loaded = True\<rparr>)
   \<and> fst (update demoRuntime ''7''
            \<lparr>pattern_u = Some ''('', matchType_u = Some Regex, enabled_u = None\<rparr>
            (Some [rule ''7'' ''cat'' Exact True])
            \<lparr>words = [rule ''7'' ''cat'' Exact True], loaded = True\<rparr>)
       = Inl (RegexSyntaxError ''('')
   \<and> snd (update demoRuntime ''7''
            \<lparr>pattern_u = Some ''('', matchType_u = Some Regex, enabled_u = None\<rparr>
            (Some [rule ''7'' ''cat'' Exact True])
            \<lparr>words = [rule ''7'' ''cat'' Exact True], loaded = True\<rparr>)
       = (Some [rule ''7'' ''cat'' Exact True],
          \<lparr>words = [rule ''7'' ''cat'' Exact True], loaded = True\<rparr>)"
proof -
  have bad: "newRegExp demoRuntime ''('' = None"
    by (simp add: demoRuntime_def)
  have ld: "ensureLoaded (Some [rule ''7'' ''cat'' Exact True]) \<lparr>words = [], loaded = False\<rparr>
              = \<lparr>words = [rule ''7'' ''cat'' Exact True], loaded = True\<rparr>"
    by (simp add: ensureLoaded_def loadDataFile_def)
  have a: "add demoRuntime ''u1'' 1000 ''('' Regex (Some [rule ''7'' ''cat'' Exact True])
         \<lparr>words = [], loaded = False\<rparr>
       = (Inl (RegexSyntaxError ''(''), Some [rule ''7'' ''cat'' Exact True],
          \<lparr>words = [rule ''7'' ''cat'' Exact True], loaded = True\<rparr>)"
    using bad by (simp add: add_def ld)
  show ?thesis
    using invalid_regex_leaves_rules_unchanged [OF bad, where uuid = "''u1''" and now = 1000
        and disk = "Some [rule ''7'' ''cat'' Exact True]"
        and s = "\<lparr>words = [rule ''7'' ''cat'' Exact True], loaded = True\<rparr>"
        and ident = "''7''" and e = None] bad a
    by (auto simp: getAll_def ensureLoaded_def rule_def split: prod.splits)
qed

text \<open>
  C7 as stated fails for \<open>update\<close>: on a rule list that has no rule with the given id
  (here the empty list), \<open>update\<close> with match type regex and the pattern \<^verbatim>\<open>(\<close> returns
  null instead of throwing.
\<close>

theorem update_unknown_id_counterexample:
  "newRegExp demoRuntime ''('' = None
   \<and> fst (update demoRuntime ''7''
            \<lparr>pattern_u = Some ''('', matchType_u = Some Regex, enabled_u = None\<rparr>
            None \<lparr>words = [], loaded = False\<rparr>)
       = Inr None"
  by (simp add: demoRuntime_def update_def ensureLoaded_def loadDataFile_def)

section \<open>Properties of the rate limit\<close>

lemma prune_sorted: "sorted ts \<Longrightarrow> prune now ts = filter (\<lambda>t. now - t < 60000) ts"
proof (induction ts)
  case Nil
  then show ?case by simp
next
  case (Cons t ts)
  show ?case
  proof (cases "t \<le> now - windowMs")
    case True
    then show ?thesis using Cons by (simp add: windowMs_def)
  next
    case False
    then have "\<forall>u \<in> set ts. now - u < 60000"
      using Cons.prems by (auto simp: windowMs_def)
    then have "filter (\<lambda>t. now - t < 60000) ts = ts"
      by (simp add: filter_id_conv)
    then show ?thesis using False by (simp add: windowMs_def)
  qed
qed

lemma prune_suffix: "\<exists>old. ts = old @ prune now ts"
proof (induction ts)
  case Nil
  then show ?case by simp
next
  case (Cons t ts)
  then obtain old where "ts = old @ prune now ts" by blast
  then have "t # ts = (t # old) @ prune now ts" by simp
  then show ?case by (metis append_Nil prune.simps(2))
qed

lemma sorted_prune_snoc: "sorted (ts @ [now]) \<Longrightarrow> sorted (prune now ts @ [now])"
proof -
  assume s: "sorted (ts @ [now])"
  obtain old where "ts = old @ prune now ts" using prune_suffix by blast
  then have "ts @ [now] = old @ (prune now ts @ [now])" by simp
  then show ?thesis using s by (metis sorted_append)
qed

lemma isRateLimited_step:
  "0 < L \<Longrightarrow> sorted (ts @ [now]) \<Longrightarrow>
   isRateLimited (Some L) now ts =
     (let kept = filter (\<lambda>t. now - t < 60000) ts in
      if int (length kept) < L then (False, kept @ [now]) else (True, kept))"
proof -
  assume L: "0 < L" and s: "sorted (ts @ [now])"
  have "sorted ts" using s by (simp add: sorted_append)
  then have "prune now ts = filter (\<lambda>t. now - t < 60000) ts" by (rule prune_sorted)
  then show ?thesis using L by (auto simp: isRateLimited_def Let_def)
qed

lemma isRateLimited_keeps_order:
  "sorted (ts @ [now]) \<Longrightarrow> now \<le> later \<Longrightarrow>
   sorted (snd (isRateLimited cfg now ts) @ [later])"
proof -
  assume s: "sorted (ts @ [now])" and l: "now \<le> later"
  have a: "sorted (ts @ [later])" using s l by (auto simp: sorted_append)
  have p: "sorted (prune now ts @ [now])" using s by (rule sorted_prune_snoc)
  then have b: "sorted (prune now ts @ [later])" using l by (auto simp: sorted_append)
  have c: "sorted ((prune now ts @ [now]) @ [later])"
    using p l by (auto simp: sorted_append)
  show ?thesis using a b c by (auto simp: isRateLimited_def Let_def)
qed

lemma three_checks_scenario:
  assumes "0 \<le> a" "a \<le> b" "b \<le> 1000"
  shows "isRateLimited (Some 2) t0 [] = (False, [t0])"
    and "isRateLimited (Some 2) (t0 + a) [t0] = (False, [t0, t0 + a])"
    and "isRateLimited (Some 2) (t0 + b) [t0, t0 + a] = (True, [t0, t0 + a])"
    and "isRateLimited (Some 2) (t0 + 61000) [t0, t0 + a] = (False, [t0 + 61000])"
  using assms by (simp_all add: isRateLimited_def windowMs_def)

text \<open>
  C8. For a limit \<open>L > 0\<close> and a window whose timestamps are in the order they were
  recorded (none later than \<open>now\<close>), a check keeps exactly the timestamps less than
  60 seconds old; if fewer than \<open>L\<close> remain it admits the call and records \<open>now\<close>,
  otherwise it rejects and records nothing; the window stays ordered for every later
  check. With \<open>L = 2\<close>, checks at \<open>t0\<close>, \<open>t0 + a\<close>, \<open>t0 + b\<close> within one second admit
  the first two and reject the third, and a check at \<open>t0 + 61000\<close> is admitted. A limit
  of 0 admits every check and leaves the window as it is.
\<close>

theorem rate_limit_sliding_window:
  "(0 < L \<and> sorted (ts @ [now]) \<longrightarrow>
      isRateLimited (Some L) now ts =
        (let kept = filter (\<lambda>t. now - t < 60000) ts in
         if int (length kept) < L then (False, kept @ [now]) else (True, kept))
      \<and> (\<forall>later \<ge> now. sorted (snd (isRateLimited (Some L) now ts) @ [later])))
   \<and> (0 \<le> a \<and> a \<le> b \<and> b \<le> 1000 \<longrightarrow>
        (case isRateLimited (Some 2) t0 [] of (r1, w1) \<Rightarrow>
         case isRateLimited (Some 2) (t0 + a) w1 of (r2, w2) \<Rightarrow>
         case isRateLimited (Some 2) (t0 + b) w2 of (r3, w3) \<Rightarrow>
         case isRateLimited (Some 2) (t0 + 61000) w3 of (r4, w4) \<Rightarrow>
           \<not> r1 \<and> \<not> r2 \<and> r3 \<and> w3 = w2 \<and> \<not> r4))
   \<and> isRateLimited (Some 0) now ts = (False, ts)"
proof -
  have step: "0 < L \<and> sorted (ts @ [now]) \<longrightarrow>
      isRateLimited (Some L) now ts =
        (let kept = filter (\<lambda>t. now - t < 60000) ts in
         if int (length kept) < L then (False, kept @ [now]) else (True, kept))
      \<and> (\<forall>later \<ge> now. sorted (snd (isRateLimited (Some L) now ts) @ [later]))"
    using isRateLimited_step [of L ts now] isRateLimited_keeps_order [of ts now]
    by blast
  have scen: "0 \<le> a \<and> a \<le> b \<and> b \<le> 1000 \<longrightarrow>
        (case isRateLimited (Some 2) t0 [] of (r1, w1) \<Rightarrow>
         case isRateLimited (Some 2) (t0 + a) w1 of (r2, w2) \<Rightarrow>
         case isRateLimited (Some 2) (t0 + b) w2 of (r3, w3) \<Rightarrow>
         case isRateLimited (Some 2) (t0 + 61000) w3 of (r4, w4) \<Rightarrow>
           \<not> r1 \<and> \<not> r2 \<and> r3 \<and> w3 = w2 \<and> \<not> r4)"
  proof (intro impI, elim conjE)
    assume h: "0 \<le> a" "a \<le> b" "b \<le> 1000"
    show "case isRateLimited (Some 2) t0 [] of (r1, w1) \<Rightarrow>
         case isRateLimited (Some 2) (t0 + a) w1 of (r2, w2) \<Rightarrow>
         case isRateLimited (Some 2) (t0 + b) w2 of (r3, w3) \<Rightarrow>
         case isRateLimited (Some 2) (t0 + 61000) w3 of (r4, w4) \<Rightarrow>
           \<not> r1 \<and> \<not> r2 \<and> r3 \<and> w3 = w2 \<and> \<not> r4"
      by (simp add: three_checks_scenario [OF h])
  qed
  have off: "isRateLimited (Some 0) now ts = (False, ts)"
    by (simp add: isRateLimited_def)
  show ?thesis using step scen off by blast
qed

theorem rate_limit_sliding_window_witness:
  "isRateLimited (Some 2) 70000 [5000, 69000] = (False, [69000, 70000])
   \<and> isRateLimited (Some 2) 70500 [69000, 70000] = (True, [69000, 70000])
   \<and> sorted (snd (isRateLimited (Some 2) 70000 [5000, 69000]) @ [70500])
   \<and> fst (isRateLimited (Some 2) 0 []) = False
   \<and> fst (isRateLimited (Some 2) 400 [0]) = False
   \<and> fst (isRateLimited (Some 2) 900 [0, 400]) = True
   \<and> fst (isRateLimited (Some 2) 61000 [0, 400]) = False
   \<and> isRateLimited (Some 0) 900 [0, 400] = (False, [0, 400])"
proof -
  have h1: "(0::int) < 2 \<and> sorted ([5000, 69000] @ [70000::int])" by simp
  have h2: "(0::int) < 2 \<and> sorted ([69000, 70000] @ [70500::int])" by simp
  have h3: "(0::int) \<le> 400 \<and> (400::int) \<le> 900 \<and> (900::int) \<le> 1000" by simp
  show ?thesis
    using rate_limit_sliding_window [of 2 "[5000, 69000]" 70000 400 900 0] h1
      rate_limit_sliding_window [of 2 "[69000, 70000]" 70500 400 900 0] h2 h3
    by (simp add: isRateLimited_def windowMs_def)
qed

section \<open>Properties of the image download\<close>

lemma downloadImage_cached:
  "filePath nd url \<in> existing fs \<Longrightarrow> tempDir nd \<in> existing fs \<Longrightarrow>
   downloadImage nd pixivImg url fs = (Inr (filePath nd url), fs)"
  by (simp add: downloadImage_def)

text \<open>
  Whatever the state of the cache, a call that returns a path leaves the file in place,
  so that the next call with the same URL returns the same path and downloads nothing.
\<close>

lemma downloadImage_repeat:
  "downloadImage nd pixivImg url fs = (Inr p, fs1) \<Longrightarrow>
   downloadImage nd pixivImg url fs1 = (Inr p, fs1)"
proof -
  assume first: "downloadImage nd pixivImg url fs = (Inr p, fs1)"
  then have "p = filePath nd url \<and> filePath nd url \<in> existing fs1 \<and> tempDir nd \<in> existing fs1"
    by (auto simp: downloadImage_def Let_def split: if_splits fetched.splits)
  then show ?thesis using downloadImage_cached by blast
qed

text \<open>
  C9. When the file for the URL is not yet in the cache directory and the download
  succeeds, two calls of \<open>downloadImage\<close> with the same URL both return the same local
  path, and exactly one network download is performed: the second call leaves the
  download log and the file system as the first call left them.
\<close>

theorem downloadImage_twice_one_download:
  "filePath nd url \<notin> insert (tempDir nd) (existing fs) \<Longrightarrow>
   pixivImg (length (downloads fs)) url (filePath nd url) = Saved \<Longrightarrow>
   (case downloadImage nd pixivImg url fs of (r1, fs1) \<Rightarrow>
    case downloadImage nd pixivImg url fs1 of (r2, fs2) \<Rightarrow>
      r1 = Inr (filePath nd url) \<and> r2 = Inr (filePath nd url) \<and>
      downloads fs1 = downloads fs @ [(url, filePath nd url)] \<and>
      fs2 = fs1 \<and> length (downloads fs2) = length (downloads fs) + 1)"
proof -
  assume fresh: "filePath nd url \<notin> insert (tempDir nd) (existing fs)"
    and ok: "pixivImg (length (downloads fs)) url (filePath nd url) = Saved"
  define fs1 where "fs1 = snd (downloadImage nd pixivImg url fs)"
  have first: "downloadImage nd pixivImg url fs = (Inr (filePath nd url), fs1)"
    and logged: "downloads fs1 = downloads fs @ [(url, filePath nd url)]"
    and there: "filePath nd url \<in> existing fs1" "tempDir nd \<in> existing fs1"
    using fresh ok unfolding fs1_def by (auto simp: downloadImage_def Let_def)
  have second: "downloadImage nd pixivImg url fs1 = (Inr (filePath nd url), fs1)"
    using there by (rule downloadImage_cached)
  show ?thesis using first second logged by simp
qed

theorem downloadImage_twice_one_download_witness:
  "filePath demoNode ''https://i.pximg.net/img/1_p0.png'' = ''/tmp/napcat-pixiv-plugin/1_p0.png''
   \<and> fst (downloadImage demoNode (\<lambda>n u p. Saved) ''https://i.pximg.net/img/1_p0.png''
            \<lparr>existing = {''/tmp''}, downloads = []\<rparr>)
       = Inr ''/tmp/napcat-pixiv-plugin/1_p0.png''
   \<and> downloadImage demoNode (\<lambda>n u p. Saved) ''https://i.pximg.net/img/1_p0.png''
        (snd (downloadImage demoNode (\<lambda>n u p. Saved) ''https://i.pximg.net/img/1_p0.png''
               \<lparr>existing = {''/tmp''}, downloads = []\<rparr>))
       = (Inr ''/tmp/napcat-pixiv-plugin/1_p0.png'',
          \<lparr>existing = {''/tmp/napcat-pixiv-plugin/1_p0.png'', ''/tmp/napcat-pixiv-plugin'', ''/tmp''},
           downloads = [(''https://i.pximg.net/img/1_p0.png'',
                         ''/tmp/napcat-pixiv-plugin/1_p0.png'')]\<rparr>)"
proof -
  let ?url = "''https://i.pximg.net/img/1_p0.png''"
  let ?fs = "\<lparr>existing = {''/tmp''}, downloads = []\<rparr>"
  have p: "filePath demoNode ?url = ''/tmp/napcat-pixiv-plugin/1_p0.png''"
    by (simp add: filePath_def tempDir_def demoNode_def)
  have t: "tempDir demoNode = ''/tmp/napcat-pixiv-plugin''"
    by (simp add: tempDir_def demoNode_def)
  have fresh: "filePath demoNode ?url \<notin> insert (tempDir demoNode) (existing ?fs)"
    by (simp add: p t)
  have ok: "(\<lambda>n u p. Saved) (length (downloads ?fs)) ?url (filePath demoNode ?url) = Saved"
    by simp
  have run: "downloadImage demoNode (\<lambda>n u p. Saved) ?url ?fs =
       (Inr ''/tmp/napcat-pixiv-plugin/1_p0.png'',
        \<lparr>existing = {''/tmp/napcat-pixiv-plugin/1_p0.png'', ''/tmp/napcat-pixiv-plugin'', ''/tmp''},
         downloads = [(?url, ''/tmp/napcat-pixiv-plugin/1_p0.png'')]\<rparr>)"
    by (simp add: downloadImage_def p t)
  show ?thesis
    using downloadImage_twice_one_download [OF fresh ok] p run
    by (auto split: prod.splits)
qed

section \<open>Properties of the filter and extraction stage\<close>

lemma Rep_Abs_unitReal: "0 \<le> u \<Longrightarrow> u < 1 \<Longrightarrow> Rep_unitReal (Abs_unitReal u) = u"
  by (simp add: Abs_unitReal_inverse)


lemma shuffleLoop_length: "length (fst (shuffleLoop k xs w)) = length xs"
proof (induction k arbitrary: xs w)
  case 0
  then show ?case by simp
next
  case (Suc k)
  obtain j w1 where r: "randomBelow (Suc k + 1) w = (j, w1)" by (cases "randomBelow (Suc k + 1) w")
  show ?case using Suc [of "xs[Suc k := xs ! j, j := xs ! Suc k]" w1] r by simp
qed

lemma extractLoop_tally:
  "extractLoop E xs a s = (a', s') \<Longrightarrow> notVisited a = 0 \<Longrightarrow>
   tally a' + notVisited a' = tally a + length xs \<and> totalScanned a' = totalScanned a \<and>
   (int (length (illusts a')) < requiredCount (config E) \<longrightarrow> notVisited a' = 0)"
proof (induction xs arbitrary: a s)
  case Nil
  then show ?case by auto
next
  case (Cons x xs)
  show ?case
  proof (cases "int (length (illusts a)) \<ge> requiredCount (config E)")
    case True
    then show ?thesis using Cons.prems by (auto simp: tally_def)
  next
    case False
    note going = False
    show ?thesis
    proof (cases "\<not> truthy (r18Enabled (config E)) \<and> isRestricted x")
      case True
      then have "extractLoop E xs (a\<lparr>r18Filtered := r18Filtered a + 1\<rparr>) s = (a', s')"
        using Cons.prems(1) going by simp
      from Cons.IH [OF this] Cons.prems(2) show ?thesis by (simp add: tally_def)
    next
      case False
      note r18 = False
      show ?thesis
      proof (cases "\<not> truthy (sensitiveEnabled (config E)) \<and> sanityOf x \<ge> 4")
        case True
        then have "extractLoop E xs (a\<lparr>sensitiveFiltered := sensitiveFiltered a + 1\<rparr>) s = (a', s')"
          using Cons.prems(1) going r18 by simp
        from Cons.IH [OF this] Cons.prems(2) show ?thesis by (simp add: tally_def)
      next
        case False
        note sens = False
        obtain hit s1 where c: "checkIllust (js E) (bannedWordsFile E) s x = (hit, s1)"
          by (cases "checkIllust (js E) (bannedWordsFile E) s x")
        show ?thesis
        proof (cases hit)
          case (Some b)
          then have "extractLoop E xs (a\<lparr>bannedFiltered := bannedFiltered a + 1\<rparr>) s1 = (a', s')"
            using Cons.prems(1) going r18 sens c by simp
          from Cons.IH [OF this] Cons.prems(2) show ?thesis by (simp add: tally_def)
        next
          case None
          note nohit = None
          show ?thesis
          proof (cases "pickImageUrl x")
            case None
            then have "extractLoop E xs (a\<lparr>noUrlDropped := noUrlDropped a + 1\<rparr>) s1 = (a', s')"
              using Cons.prems(1) going r18 sens c nohit by simp
            from Cons.IH [OF this] Cons.prems(2) show ?thesis by (simp add: tally_def)
          next
            case (Some url)
            then have "\<exists>item. extractLoop E xs (a\<lparr>illusts := illusts a @ [item]\<rparr>) s1 = (a', s')"
              using Cons.prems(1) going r18 sens c nohit by auto
            then obtain item where
              "extractLoop E xs (a\<lparr>illusts := illusts a @ [item]\<rparr>) s1 = (a', s')" by blast
            from Cons.IH [OF this] Cons.prems(2) show ?thesis by (simp add: tally_def)
          qed
        qed
      qed
    qed
  qed
qed

lemma extractScan_tally:
  "extractScan E w batch shuffle = (a, w1) \<Longrightarrow>
   tally a + notVisited a = length batch \<and> totalScanned a = length batch \<and>
   (int (length (illusts a)) < requiredCount (config E) \<longrightarrow> notVisited a = 0)"
proof -
  assume run: "extractScan E w batch shuffle = (a, w1)"
  obtain xs w0 where sh: "(if shuffle \<and> length batch > 0
      then shuffleLoop (length batch - 1) batch w else (batch, w)) = (xs, w0)"
    by (cases "if shuffle \<and> length batch > 0
      then shuffleLoop (length batch - 1) batch w else (batch, w)")
  have len: "length xs = length batch"
    using sh shuffleLoop_length [of "length batch - 1" batch w] by (auto split: if_splits)
  obtain s where loop: "extractLoop E xs
      \<lparr>illusts = [], totalScanned = length xs, r18Filtered = 0, sensitiveFiltered = 0,
       bannedFiltered = 0, noUrlDropped = 0, notVisited = 0\<rparr> (bannedWords w0) = (a, s)"
    using run sh by (auto simp: extractScan_def split: prod.splits)
  from extractLoop_tally [OF loop] len show ?thesis by (simp add: tally_def)
qed

text \<open>
  C1, as the code has it. For every raw batch, \<open>totalScanned\<close> is the length of the
  batch, and the three rejection tallies, the number of accepted items, the number
  dropped for having no image URL, and the number of items left unvisited when the
  scan stopped at the target count sum to it. The unvisited number is 0 whenever fewer
  than the target count were accepted, so in that case the five numbers of the claim
  sum to \<open>totalScanned\<close>.
\<close>

theorem extract_tallies_sum:
  "(case extractScan E w batch shuffle of
      (a, w1) \<Rightarrow>
        (case extractTopSafe E w batch shuffle of
           (r, w2) \<Rightarrow>
             w2 = w1 \<and> illusts r = illusts a \<and>
             r18Filtered r + sensitiveFiltered r + bannedFiltered r + length (illusts r) +
               noUrlDropped a + notVisited a = totalScanned r \<and>
             totalScanned r = length batch \<and>
             (int (length (illusts r)) < requiredCount (config E) \<longrightarrow> notVisited a = 0)))"
proof -
  obtain a w1 where run: "extractScan E w batch shuffle = (a, w1)"
    by (cases "extractScan E w batch shuffle")
  from extractScan_tally [OF run] show ?thesis
    using run by (simp add: extractTopSafe_def tally_def)
qed

theorem extract_tallies_sum_witness:
  "fst (extractTopSafe (demoEnv (Some 2) noSearch noRecommended) demoWorld
          [illustWith 1 1 (Some ''u1''), illustWith 2 0 None, illustWith 3 0 (Some ''u3'')] True)
     = \<lparr>illusts = [safeWith 3 ''u3''], totalScanned = 3, r18Filtered = 1,
        sensitiveFiltered = 0, bannedFiltered = 0\<rparr>
   \<and> noUrlDropped (fst (extractScan (demoEnv (Some 2) noSearch noRecommended) demoWorld
          [illustWith 1 1 (Some ''u1''), illustWith 2 0 None, illustWith 3 0 (Some ''u3'')] True)) = 1
   \<and> notVisited (fst (extractScan (demoEnv (Some 2) noSearch noRecommended) demoWorld
          [illustWith 1 1 (Some ''u1''), illustWith 2 0 None, illustWith 3 0 (Some ''u3'')] True)) = 0"
proof -
  let ?E = "demoEnv (Some 2) noSearch noRecommended"
  let ?b = "[illustWith 1 1 (Some ''u1''), illustWith 2 0 None, illustWith 3 0 (Some ''u3'')]"
  have run: "fst (extractTopSafe ?E demoWorld ?b True)
     = \<lparr>illusts = [safeWith 3 ''u3''], totalScanned = 3, r18Filtered = 1,
        sensitiveFiltered = 0, bannedFiltered = 0\<rparr>"
    and nourl: "noUrlDropped (fst (extractScan ?E demoWorld ?b True)) = 1"
    by (simp_all add: extractTopSafe_def extractScan_def demoEnv_def demoWorld_def
        illustWith_def safeWith_def randomBelow_def Rep_Abs_unitReal requiredCount_def truthy_def nonEmpty_def
        checkIllust_def matchText_def getEnabled_def ensureLoaded_def loadDataFile_def
        pickImageUrl_def isRestricted_def sanityOf_def userNameOf_def numeral_2_eq_2 Let_def)
  show ?thesis
    using extract_tallies_sum [where E = ?E and w = demoWorld and batch = ?b and shuffle = True]
      run nourl
    by (auto split: prod.splits)
qed

text \<open>
  C1 as stated fails: with target count 1 and a batch of two acceptable items the scan
  stops after the first, so one item is accepted, none is rejected or dropped, and
  \<open>totalScanned\<close> is 2.
\<close>

theorem extract_early_stop_counterexample:
  "fst (extractTopSafe (demoEnv (Some 1) noSearch noRecommended) demoWorld
          [illustWith 1 0 (Some ''u1''), illustWith 2 0 (Some ''u2'')] True)
     = \<lparr>illusts = [safeWith 2 ''u2''], totalScanned = 2, r18Filtered = 0,
        sensitiveFiltered = 0, bannedFiltered = 0\<rparr>
   \<and> noUrlDropped (fst (extractScan (demoEnv (Some 1) noSearch noRecommended) demoWorld
          [illustWith 1 0 (Some ''u1''), illustWith 2 0 (Some ''u2'')] True)) = 0"
  by (simp_all add: extractTopSafe_def extractScan_def demoEnv_def demoWorld_def
      illustWith_def safeWith_def randomBelow_def Rep_Abs_unitReal requiredCount_def truthy_def nonEmpty_def
      checkIllust_def matchText_def getEnabled_def ensureLoaded_def loadDataFile_def
      pickImageUrl_def isRestricted_def sanityOf_def userNameOf_def Let_def)

section \<open>Properties of the acquisition sessions\<close>

subsection \<open>The pool\<close>

lemma mergeInto_append: "mergeInto m (xs @ ys) = mergeInto (mergeInto m xs) ys"
  by (induction xs arbitrary: m) auto

lemma mergeInto_keys_distinct:
  "distinct (map fst m) \<Longrightarrow> distinct (map fst (mergeInto m xs))"
  by (induction xs arbitrary: m) (auto simp: has_def)

lemma mergeInto_entries:
  "(k, v) \<in> set (mergeInto m xs) \<Longrightarrow>
   (k, v) \<in> set m \<or> (\<not> has m k \<and> k = id_s v \<and> find (\<lambda>y. id_s y = k) xs = Some v)"
proof (induction xs arbitrary: m)
  case Nil
  then show ?case by simp
next
  case (Cons x xs)
  show ?case
  proof (cases "has m (id_s x)")
    case True
    then have "(k, v) \<in> set (mergeInto m xs)" using Cons.prems by simp
    then have "(k, v) \<in> set m \<or> (\<not> has m k \<and> k = id_s v \<and> find (\<lambda>y. id_s y = k) xs = Some v)"
      by (rule Cons.IH)
    then show ?thesis using True by auto
  next
    case False
    then have "(k, v) \<in> set (mergeInto (m @ [(id_s x, x)]) xs)" using Cons.prems by simp
    then have "(k, v) \<in> set (m @ [(id_s x, x)]) \<or>
        (\<not> has (m @ [(id_s x, x)]) k \<and> k = id_s v \<and> find (\<lambda>y. id_s y = k) xs = Some v)"
      by (rule Cons.IH)
    then show ?thesis using False by (auto simp: has_def)
  qed
qed

lemma pool_first_seen:
  assumes "x \<in> set (map snd (mergeInto [] xs))"
  shows "find (\<lambda>y. id_s y = id_s x) xs = Some x"
proof -
  obtain k where "(k, x) \<in> set (mergeInto [] xs)" using assms by auto
  from mergeInto_entries [OF this] show ?thesis by auto
qed

lemma pool_ids_distinct: "distinct (map id_s (map snd (mergeInto [] xs)))"
proof -
  have d: "distinct (map fst (mergeInto [] xs))"
    by (rule mergeInto_keys_distinct) simp
  have "\<forall>p \<in> set (mergeInto [] xs). fst p = id_s (snd p)"
  proof
    fix p assume "p \<in> set (mergeInto [] xs)"
    then have "(fst p, snd p) \<in> set (mergeInto [] xs)" by simp
    from mergeInto_entries [OF this] show "fst p = id_s (snd p)" by auto
  qed
  then have e: "map fst (mergeInto [] xs) = map (id_s \<circ> snd) (mergeInto [] xs)"
    by (intro map_cong) auto
  from d [unfolded e] show ?thesis by simp
qed

lemma slice0_subset: "set (slice0 xs e) \<subseteq> set xs"
  by (auto simp: slice0_def dest: in_set_takeD)

lemma slice0_distinct: "distinct (map f xs) \<Longrightarrow> distinct (map f (slice0 xs e))"
  by (simp add: slice0_def take_map [symmetric] distinct_take)

lemma slice0_length: "0 \<le> e \<Longrightarrow> int (length (slice0 xs e)) \<le> e"
  by (simp add: slice0_def)

subsection \<open>One attempt\<close>

lemma offsetLimits_last: "length offsetLimits - Suc 0 = 4"
  by (simp add: offsetLimits_def)

lemma accumulate_pool:
  "collectedMap (accumulate cur st) = mergeInto (collectedMap st) (illusts cur)"
  by (simp add: accumulate_def)

lemma accumulate_level: "offsetLevel (accumulate cur st) = offsetLevel st"
  by (simp add: accumulate_def)

lemma collected_illusts:
  "illusts (collected E st) = slice0 (map snd (collectedMap st)) (requiredCount (config E))"
  by (simp add: collected_def)





lemma searchAttempt_Return:
  "searchAttempt E kw n st w = (Return r, w1, e) \<Longrightarrow>
   r = collected E (accumulate (currentResult e) st)"
  by (auto simp: searchAttempt_def Let_def split: prod.splits sum.splits if_splits)

lemma searchAttempt_Break:
  "searchAttempt E kw n st w = (Break st1, w1, e) \<Longrightarrow>
   collectedMap st1 = mergeInto (collectedMap st) (illusts (currentResult e)) \<and>
   raw e = Some [] \<and> maxOffset e = 0"
  by (auto simp: searchAttempt_def Let_def accumulate_pool
      split: prod.splits sum.splits if_splits option.splits)

lemma searchAttempt_Continue:
  "searchAttempt E kw n st w = (Continue st1, w1, e) \<Longrightarrow>
   collectedMap st1 = mergeInto (collectedMap st) (illusts (currentResult e)) \<and>
   offsetLevel st1 = (if raw e = Some [] then offsetLevel st + 1 else offsetLevel st) \<and>
   (raw e = Some [] \<longrightarrow> maxOffset e \<noteq> 0)"
  by (auto simp: searchAttempt_def Let_def accumulate_pool accumulate_level
      split: prod.splits sum.splits if_splits option.splits)

lemma randomAttempt_Return:
  "randomAttempt E n st w = (Return r, w1, e) \<Longrightarrow>
   r = collected E (accumulate (currentResult e) st)"
  by (auto simp: randomAttempt_def Let_def split: prod.splits sum.splits if_splits)

lemma randomAttempt_pool:
  "randomAttempt E n st w = (out, w1, e) \<Longrightarrow> out = Break st1 \<or> out = Continue st1 \<Longrightarrow>
   collectedMap st1 = mergeInto (collectedMap st) (illusts (currentResult e))"
  by (auto simp: randomAttempt_def Let_def accumulate_pool
      split: prod.splits sum.splits if_splits option.splits)

lemma extractTopSafe_empty:
  "extractTopSafe E w [] shuffle =
     (\<lparr>illusts = [], totalScanned = 0, r18Filtered = 0, sensitiveFiltered = 0,
       bannedFiltered = 0\<rparr>, w)"
  by (simp add: extractTopSafe_def extractScan_def)

text \<open>
  What decides the \<^verbatim>\<open>break\<close> of \<open>getRandomTop3\<close>: with the pool still short of the
  target, the attempt stops the session exactly when it accepted nothing and none of the
  three filters rejected anything. An empty raw batch always does so.
\<close>

lemma randomAttempt_break_iff:
  "randomAttempt E n st w = (out, w1, e) \<Longrightarrow> raw e \<noteq> None \<Longrightarrow>
   (\<exists>st1. out = Break st1) \<longleftrightarrow>
     (int (poolSize e) < requiredCount (config E) \<and> illusts (currentResult e) = [] \<and>
      r18Filtered (currentResult e) + sensitiveFiltered (currentResult e) +
        bannedFiltered (currentResult e) = 0)"
  by (auto simp: randomAttempt_def Let_def split: prod.splits sum.splits if_splits)

lemma randomAttempt_empty_batch:
  "randomAttempt E n st w = (out, w1, e) \<Longrightarrow> raw e = Some [] \<Longrightarrow>
   illusts (currentResult e) = [] \<and>
   r18Filtered (currentResult e) + sensitiveFiltered (currentResult e) +
     bannedFiltered (currentResult e) = 0"
  by (auto simp: randomAttempt_def Let_def extractTopSafe_empty
      split: prod.splits sum.splits if_splits option.splits)

subsection \<open>The retry loops, one step at a time\<close>

declare searchLoop.simps [simp del]
declare randomLoop.simps [simp del]

lemma searchLoop_cases:
  assumes "searchLoop E kw n st w = (res, w', es)"
  obtains
    (exhausted) "\<not> n < maxRetriesSearch" "res = Inr (collected E st)" "w' = w" "es = []"
  | (returned) r e where "n < maxRetriesSearch"
      "searchAttempt E kw n st w = (Return r, w', e)" "res = Inr r" "es = [e]"
  | (thrown) err e where "n < maxRetriesSearch"
      "searchAttempt E kw n st w = (Throw err, w', e)" "res = Inl err" "es = [e]"
  | (broke) st1 e where "n < maxRetriesSearch"
      "searchAttempt E kw n st w = (Break st1, w', e)" "res = Inr (collected E st1)" "es = [e]"
  | (continued) st1 w1 e es1 where "n < maxRetriesSearch"
      "searchAttempt E kw n st w = (Continue st1, w1, e)"
      "searchLoop E kw (n + 1) st1 w1 = (res, w', es1)" "es = e # es1"
proof (cases "n < maxRetriesSearch")
  case False
  then show ?thesis using assms exhausted by (simp add: searchLoop.simps)
next
  case True
  obtain out w1 e where step: "searchAttempt E kw n st w = (out, w1, e)"
    by (cases "searchAttempt E kw n st w")
  show ?thesis
  proof (cases out)
    case (Return r)
    then show ?thesis using assms True step returned by (simp add: searchLoop.simps)
  next
    case (Throw err)
    then show ?thesis using assms True step thrown by (simp add: searchLoop.simps)
  next
    case (Break st1)
    then show ?thesis using assms True step broke by (simp add: searchLoop.simps)
  next
    case (Continue st1)
    obtain r2 w2 es2 where rest: "searchLoop E kw (n + 1) st1 w1 = (r2, w2, es2)"
      by (cases "searchLoop E kw (n + 1) st1 w1")
    then show ?thesis
      using assms True step Continue continued by (simp add: searchLoop.simps)
  qed
qed

lemma randomLoop_cases:
  assumes "randomLoop E n st w = (res, w', es)"
  obtains
    (exhausted) "\<not> n < maxRetriesRandom" "res = Inr (collected E st)" "w' = w" "es = []"
  | (returned) r e where "n < maxRetriesRandom"
      "randomAttempt E n st w = (Return r, w', e)" "res = Inr r" "es = [e]"
  | (thrown) err e where "n < maxRetriesRandom"
      "randomAttempt E n st w = (Throw err, w', e)" "res = Inl err" "es = [e]"
  | (broke) st1 e where "n < maxRetriesRandom"
      "randomAttempt E n st w = (Break st1, w', e)" "res = Inr (collected E st1)" "es = [e]"
  | (continued) st1 w1 e es1 where "n < maxRetriesRandom"
      "randomAttempt E n st w = (Continue st1, w1, e)"
      "randomLoop E (n + 1) st1 w1 = (res, w', es1)" "es = e # es1"
proof (cases "n < maxRetriesRandom")
  case False
  then show ?thesis using assms exhausted by (simp add: randomLoop.simps)
next
  case True
  obtain out w1 e where step: "randomAttempt E n st w = (out, w1, e)"
    by (cases "randomAttempt E n st w")
  show ?thesis
  proof (cases out)
    case (Return r)
    then show ?thesis using assms True step returned by (simp add: randomLoop.simps)
  next
    case (Throw err)
    then show ?thesis using assms True step thrown by (simp add: randomLoop.simps)
  next
    case (Break st1)
    then show ?thesis using assms True step broke by (simp add: randomLoop.simps)
  next
    case (Continue st1)
    obtain r2 w2 es2 where rest: "randomLoop E (n + 1) st1 w1 = (r2, w2, es2)"
      by (cases "randomLoop E (n + 1) st1 w1")
    then show ?thesis
      using assms True step Continue continued by (simp add: randomLoop.simps)
  qed
qed

subsection \<open>The retry loops as a whole\<close>

lemma acceptedItems_Cons:
  "acceptedItems (e # es) = illusts (currentResult e) @ acceptedItems es"
  by (simp add: acceptedItems_def)

lemma acceptedItems_Nil: "acceptedItems [] = []"
  by (simp add: acceptedItems_def)

lemma searchLoop_pool:
  "maxRetriesSearch - n = k \<Longrightarrow> searchLoop E kw n st w = (Inr r, w', es) \<Longrightarrow>
   illusts r = slice0 (map snd (mergeInto (collectedMap st) (acceptedItems es)))
                 (requiredCount (config E))"
proof (induction k arbitrary: n st w es)
  case 0
  from "0.prems"(2) show ?case
  proof (cases rule: searchLoop_cases)
    case exhausted
    then show ?thesis by (simp add: collected_illusts acceptedItems_Nil)
  qed (use "0.prems"(1) in auto)
next
  case (Suc k)
  from Suc.prems(2) show ?case
  proof (cases rule: searchLoop_cases)
    case exhausted
    then show ?thesis by (simp add: collected_illusts acceptedItems_Nil)
  next
    case (returned r0 e)
    from searchAttempt_Return [OF returned(2)] returned(3,4) show ?thesis
      by (simp add: collected_illusts accumulate_pool acceptedItems_Cons acceptedItems_Nil)
  next
    case (thrown err e)
    then show ?thesis by simp
  next
    case (broke st1 e)
    from searchAttempt_Break [OF broke(2)] broke(3,4) show ?thesis
      by (simp add: collected_illusts acceptedItems_Cons acceptedItems_Nil)
  next
    case (continued st1 w1 e es1)
    have "maxRetriesSearch - (n + 1) = k" using Suc.prems(1) by simp
    from Suc.IH [OF this continued(3)] searchAttempt_Continue [OF continued(2)] continued(4)
    show ?thesis by (simp add: acceptedItems_Cons mergeInto_append)
  qed
qed

lemma randomLoop_pool:
  "maxRetriesRandom - n = k \<Longrightarrow> randomLoop E n st w = (Inr r, w', es) \<Longrightarrow>
   illusts r = slice0 (map snd (mergeInto (collectedMap st) (acceptedItems es)))
                 (requiredCount (config E))"
proof (induction k arbitrary: n st w es)
  case 0
  from "0.prems"(2) show ?case
  proof (cases rule: randomLoop_cases)
    case exhausted
    then show ?thesis by (simp add: collected_illusts acceptedItems_Nil)
  qed (use "0.prems"(1) in auto)
next
  case (Suc k)
  from Suc.prems(2) show ?case
  proof (cases rule: randomLoop_cases)
    case exhausted
    then show ?thesis by (simp add: collected_illusts acceptedItems_Nil)
  next
    case (returned r0 e)
    from randomAttempt_Return [OF returned(2)] returned(3,4) show ?thesis
      by (simp add: collected_illusts accumulate_pool acceptedItems_Cons acceptedItems_Nil)
  next
    case (thrown err e)
    then show ?thesis by simp
  next
    case (broke st1 e)
    from randomAttempt_pool [OF broke(2), of st1] broke(3,4) show ?thesis
      by (simp add: collected_illusts acceptedItems_Cons acceptedItems_Nil)
  next
    case (continued st1 w1 e es1)
    have "maxRetriesRandom - (n + 1) = k" using Suc.prems(1) by simp
    from Suc.IH [OF this continued(3)] randomAttempt_pool [OF continued(2), of st1] continued(4)
    show ?thesis by (simp add: acceptedItems_Cons mergeInto_append)
  qed
qed

lemma searchLoop_length:
  "maxRetriesSearch - n = k \<Longrightarrow> searchLoop E kw n st w = (res, w', es) \<Longrightarrow> length es \<le> k"
proof (induction k arbitrary: n st w es)
  case 0
  from "0.prems"(2) show ?case
    by (cases rule: searchLoop_cases) (use "0.prems"(1) in auto)
next
  case (Suc k)
  from Suc.prems(2) show ?case
  proof (cases rule: searchLoop_cases)
    case (continued st1 w1 e es1)
    have "maxRetriesSearch - (n + 1) = k" using Suc.prems(1) by simp
    from Suc.IH [OF this continued(3)] continued(4) show ?thesis by simp
  qed auto
qed

lemma randomLoop_length:
  "maxRetriesRandom - n = k \<Longrightarrow> randomLoop E n st w = (res, w', es) \<Longrightarrow> length es \<le> k"
proof (induction k arbitrary: n st w es)
  case 0
  from "0.prems"(2) show ?case
    by (cases rule: randomLoop_cases) (use "0.prems"(1) in auto)
next
  case (Suc k)
  from Suc.prems(2) show ?case
  proof (cases rule: randomLoop_cases)
    case (continued st1 w1 e es1)
    have "maxRetriesRandom - (n + 1) = k" using Suc.prems(1) by simp
    from Suc.IH [OF this continued(3)] continued(4) show ?thesis by simp
  qed auto
qed







subsection \<open>The draws of a session\<close>















lemma ensureLoggedIn_error: "ensureLoggedIn E w = (Some err, w1) \<Longrightarrow> err = LoginFailed"
  by (auto simp: ensureLoggedIn_def Let_def split: if_splits)

lemma searchTop3_from_loop:
  assumes "searchTop3 E kw w = (res, w', es)"
  obtains (refused) "res = Inl LoginFailed" "es = []"
  | (ran) w0 where
      "searchLoop E kw 0
         \<lparr>collectedMap = [], totalScannedSum = 0, totalR18Filtered = 0,
          totalSensitiveFiltered = 0, totalBannedFiltered = 0, offsetLevel = 0\<rparr> w0
       = (res, w', es)"
proof -
  obtain err w0 where l: "ensureLoggedIn E w = (err, w0)" by (cases "ensureLoggedIn E w")
  show ?thesis
  proof (cases err)
    case None
    then show ?thesis using assms l ran by (simp add: searchTop3_def)
  next
    case (Some e)
    then have "e = LoginFailed" using l ensureLoggedIn_error by blast
    then show ?thesis using assms l Some refused by (simp add: searchTop3_def)
  qed
qed

lemma getRandomTop3_from_loop:
  assumes "getRandomTop3 E w = (res, w', es)"
  obtains (refused) "res = Inl LoginFailed" "es = []"
  | (ran) w0 where
      "randomLoop E 0
         \<lparr>collectedMap = [], totalScannedSum = 0, totalR18Filtered = 0,
          totalSensitiveFiltered = 0, totalBannedFiltered = 0\<rparr> w0
       = (res, w', es)"
proof -
  obtain err w0 where l: "ensureLoggedIn E w = (err, w0)" by (cases "ensureLoggedIn E w")
  show ?thesis
  proof (cases err)
    case None
    then show ?thesis using assms l ran by (simp add: getRandomTop3_def)
  next
    case (Some e)
    then have "e = LoginFailed" using l ensureLoggedIn_error by blast
    then show ?thesis using assms l Some refused by (simp add: getRandomTop3_def)
  qed
qed

lemma searchTop3_items:
  "searchTop3 E kw w = (Inr r, w', es) \<Longrightarrow>
   illusts r = slice0 (map snd (mergeInto [] (acceptedItems es))) (requiredCount (config E))"
proof -
  assume run: "searchTop3 E kw w = (Inr r, w', es)"
  from run show ?thesis
  proof (cases rule: searchTop3_from_loop)
    case refused
    then show ?thesis by simp
  next
    case (ran w0)
    have "illusts r =
        slice0 (map snd (mergeInto
          (collectedMap \<lparr>collectedMap = [], totalScannedSum = 0, totalR18Filtered = 0,
             totalSensitiveFiltered = 0, totalBannedFiltered = 0, offsetLevel = 0\<rparr>)
          (acceptedItems es))) (requiredCount (config E))"
      using ran by (rule searchLoop_pool [OF refl])
    then show ?thesis by simp
  qed
qed

lemma getRandomTop3_items:
  "getRandomTop3 E w = (Inr r, w', es) \<Longrightarrow>
   illusts r = slice0 (map snd (mergeInto [] (acceptedItems es))) (requiredCount (config E))"
proof -
  assume run: "getRandomTop3 E w = (Inr r, w', es)"
  from run show ?thesis
  proof (cases rule: getRandomTop3_from_loop)
    case refused
    then show ?thesis by simp
  next
    case (ran w0)
    have "illusts r =
        slice0 (map snd (mergeInto
          (collectedMap \<lparr>collectedMap = [], totalScannedSum = 0, totalR18Filtered = 0,
             totalSensitiveFiltered = 0, totalBannedFiltered = 0\<rparr>)
          (acceptedItems es))) (requiredCount (config E))"
      using ran by (rule randomLoop_pool [OF refl])
    then show ?thesis by simp
  qed
qed

lemma items_first_seen:
  assumes "items = slice0 (map snd (mergeInto [] xs)) e"
  shows "distinct (map id_s items) \<and>
         (\<forall>x \<in> set items. find (\<lambda>y. id_s y = id_s x) xs = Some x)"
proof -
  have "distinct (map id_s (map snd (mergeInto [] xs)))"
    by (rule pool_ids_distinct)
  then have "distinct (map id_s (slice0 (map snd (mergeInto [] xs)) e))"
    by (rule slice0_distinct)
  then have d: "distinct (map id_s items)"
    by (simp only: assms)
  have sub: "set items \<subseteq> set (map snd (mergeInto [] xs))"
    by (simp only: assms slice0_subset)
  have "\<forall>x \<in> set items. find (\<lambda>y. id_s y = id_s x) xs = Some x"
  proof
    fix x assume "x \<in> set items"
    then have "x \<in> set (map snd (mergeInto [] xs))"
      using sub by (rule subsetD [rotated])
    then show "find (\<lambda>y. id_s y = id_s x) xs = Some x" by (rule pool_first_seen)
  qed
  then show ?thesis using d by (rule conjI [rotated])
qed

subsection \<open>A session in which the upstream never returns an item\<close>

lemma accumulate_nothing:
  "accumulate \<lparr>illusts = [], totalScanned = 0, r18Filtered = 0, sensitiveFiltered = 0,
                 bannedFiltered = 0\<rparr> st = st"
  by (simp add: accumulate_def)

lemma searchAttempt_empty_response:
  assumes resp: "\<forall>off. searchIllust E n kw off = Inr None \<or> searchIllust E n kw off = Inr (Some [])"
    and short: "int (length (collectedMap st)) < requiredCount (config E)"
    and step: "searchAttempt E kw n st w = (out, w1, e)"
  shows "out = (if offsetLimits ! min (offsetLevel st) 4 = 0
                then Break (st\<lparr>offsetLevel := offsetLevel st + 1\<rparr>)
                else Continue (st\<lparr>offsetLevel := offsetLevel st + 1\<rparr>))"
proof -
  define ceiling where "ceiling = offsetLimits ! min (offsetLevel st) 4"
  obtain off w0 where draw:
    "(if ceiling > 0 then randomBelow (ceiling + 1) w else (0, w)) = (off, w0)"
    by (cases "if ceiling > 0 then randomBelow (ceiling + 1) w else (0, w)")
  from resp have "searchIllust E n kw off = Inr None \<or> searchIllust E n kw off = Inr (Some [])"
    by blast
  then show ?thesis
  proof
    assume "searchIllust E n kw off = Inr None"
    then show ?thesis
      using step short draw unfolding ceiling_def
      by (simp add: searchAttempt_def offsetLimits_last extractTopSafe_empty
          accumulate_nothing Let_def split: if_splits)
  next
    assume "searchIllust E n kw off = Inr (Some [])"
    then show ?thesis
      using step short draw unfolding ceiling_def
      by (simp add: searchAttempt_def offsetLimits_last extractTopSafe_empty
          accumulate_nothing Let_def split: if_splits)
  qed
qed

lemma collected_level: "collected E (st\<lparr>offsetLevel := l\<rparr>) = collected E st"
  by (simp add: collected_def)

lemma searchLoop_all_empty:
  assumes resp: "\<forall>n off. searchIllust E n kw off = Inr None \<or> searchIllust E n kw off = Inr (Some [])"
    and pos: "0 < requiredCount (config E)"
  shows "4 - n = k \<Longrightarrow> n \<le> 4 \<Longrightarrow> offsetLevel st = n \<Longrightarrow> collectedMap st = [] \<Longrightarrow>
         searchLoop E kw n st w = (res, w', es) \<Longrightarrow>
         length es = 5 - n \<and> res = Inr (collected E st)"
proof (induction k arbitrary: n st w es)
  case 0
  then have n: "n = 4" by simp
  have r: "\<forall>off. searchIllust E n kw off = Inr None \<or> searchIllust E n kw off = Inr (Some [])"
    using resp by blast
  have short: "int (length (collectedMap st)) < requiredCount (config E)"
    using "0.prems"(4) pos by simp
  have lim: "offsetLimits ! min (offsetLevel st) 4 = 0"
    using "0.prems"(3) n by (simp add: offsetLimits_def)
  from "0.prems"(5) show ?case
  proof (cases rule: searchLoop_cases)
    case exhausted
    then show ?thesis using n by (simp add: maxRetriesSearch_def)
  next
    case (returned r e)
    from searchAttempt_empty_response [OF r short returned(2)] lim
    show ?thesis by simp
  next
    case (thrown err e)
    from searchAttempt_empty_response [OF r short thrown(2)] lim
    show ?thesis by simp
  next
    case (broke st1 e)
    from searchAttempt_empty_response [OF r short broke(2)] lim
    have "st1 = st\<lparr>offsetLevel := offsetLevel st + 1\<rparr>" by simp
    then show ?thesis using broke(3,4) n by (simp add: collected_level)
  next
    case (continued st1 w1 e es1)
    from searchAttempt_empty_response [OF r short continued(2)] lim
    show ?thesis by simp
  qed
next
  case (Suc k)
  then have n: "n \<le> 3" by simp
  have r: "\<forall>off. searchIllust E n kw off = Inr None \<or> searchIllust E n kw off = Inr (Some [])"
    using resp by blast
  have short: "int (length (collectedMap st)) < requiredCount (config E)"
    using Suc.prems(4) pos by simp
  have lim: "offsetLimits ! min (offsetLevel st) 4 \<noteq> 0"
  proof -
    consider "n = 0" | "n = 1" | "n = 2" | "n = 3" using n by linarith
    then show ?thesis using Suc.prems(3) by cases (simp_all add: offsetLimits_def)
  qed
  from Suc.prems(5) show ?case
  proof (cases rule: searchLoop_cases)
    case exhausted
    then show ?thesis using n by (simp add: maxRetriesSearch_def)
  next
    case (returned r e)
    from searchAttempt_empty_response [OF r short returned(2)] lim
    show ?thesis by simp
  next
    case (thrown err e)
    from searchAttempt_empty_response [OF r short thrown(2)] lim
    show ?thesis by simp
  next
    case (broke st1 e)
    from searchAttempt_empty_response [OF r short broke(2)] lim
    show ?thesis by simp
  next
    case (continued st1 w1 e es1)
    from searchAttempt_empty_response [OF r short continued(2)] lim
    have st1: "st1 = st\<lparr>offsetLevel := offsetLevel st + 1\<rparr>" by simp
    have a: "4 - (n + 1) = k" using Suc.prems(1) by simp
    have b: "n + 1 \<le> 4" using n by simp
    have c: "offsetLevel st1 = n + 1" using st1 Suc.prems(3) by simp
    have d: "collectedMap st1 = []" using st1 Suc.prems(4) by simp
    from Suc.IH [OF a b c d continued(3)] continued(4) st1 n
    show ?thesis by (simp add: collected_level)
  qed
qed

lemmas run_defs = searchTop3_def getRandomTop3_def ensureLoggedIn_def searchLoop.simps
  randomLoop.simps searchAttempt_def randomAttempt_def extractTopSafe_def extractScan_def
  accumulate_def collected_def has_def slice0_def randomBelow_def Rep_Abs_unitReal
  requiredCount_def
  truthy_def nonEmpty_def checkIllust_def matchText_def getEnabled_def ensureLoaded_def
  loadDataFile_def pickImageUrl_def isRestricted_def sanityOf_def userNameOf_def
  maxRetriesSearch_def maxRetriesRandom_def offsetLimits_def emptyResult_def Let_def
  demoEnv_def demoWorld_def illustWith_def safeWith_def noSearch_def noRecommended_def

subsection \<open>The claims about the sessions\<close>

text \<open>
  C2. In the result of a session of \<open>searchTop3\<close> or of \<open>getRandomTop3\<close>, whatever the
  attempts returned, no id occurs twice, and the item kept for an id is the first item
  with that id among all the items the attempts accepted, taken attempt after attempt
  in order: the one from the attempt in which the id was first seen. A later item with
  the same id never replaces it.
\<close>

theorem items_deduplicated_first_seen:
  "(case searchTop3 E kw w of
      (res, w', es) \<Rightarrow>
        (\<forall>r. res = Inr r \<longrightarrow>
           distinct (map id_s (illusts r)) \<and>
           (\<forall>x \<in> set (illusts r). find (\<lambda>y. id_s y = id_s x) (acceptedItems es) = Some x)))
   \<and>
   (case getRandomTop3 E w of
      (res, w', es) \<Rightarrow>
        (\<forall>r. res = Inr r \<longrightarrow>
           distinct (map id_s (illusts r)) \<and>
           (\<forall>x \<in> set (illusts r). find (\<lambda>y. id_s y = id_s x) (acceptedItems es) = Some x)))"
proof
  obtain res w' es where run: "searchTop3 E kw w = (res, w', es)"
    by (cases "searchTop3 E kw w")
  have "\<forall>r. res = Inr r \<longrightarrow>
           distinct (map id_s (illusts r)) \<and>
           (\<forall>x \<in> set (illusts r). find (\<lambda>y. id_s y = id_s x) (acceptedItems es) = Some x)"
  proof (intro allI impI)
    fix r assume "res = Inr r"
    then have "searchTop3 E kw w = (Inr r, w', es)" using run by simp
    from items_first_seen [OF searchTop3_items [OF this]]
    show "distinct (map id_s (illusts r)) \<and>
           (\<forall>x \<in> set (illusts r). find (\<lambda>y. id_s y = id_s x) (acceptedItems es) = Some x)" .
  qed
  then show "case searchTop3 E kw w of
      (res, w', es) \<Rightarrow>
        (\<forall>r. res = Inr r \<longrightarrow>
           distinct (map id_s (illusts r)) \<and>
           (\<forall>x \<in> set (illusts r). find (\<lambda>y. id_s y = id_s x) (acceptedItems es) = Some x))"
    using run by simp
next
  obtain res w' es where run: "getRandomTop3 E w = (res, w', es)"
    by (cases "getRandomTop3 E w")
  have "\<forall>r. res = Inr r \<longrightarrow>
           distinct (map id_s (illusts r)) \<and>
           (\<forall>x \<in> set (illusts r). find (\<lambda>y. id_s y = id_s x) (acceptedItems es) = Some x)"
  proof (intro allI impI)
    fix r assume "res = Inr r"
    then have "getRandomTop3 E w = (Inr r, w', es)" using run by simp
    from items_first_seen [OF getRandomTop3_items [OF this]]
    show "distinct (map id_s (illusts r)) \<and>
           (\<forall>x \<in> set (illusts r). find (\<lambda>y. id_s y = id_s x) (acceptedItems es) = Some x)" .
  qed
  then show "case getRandomTop3 E w of
      (res, w', es) \<Rightarrow>
        (\<forall>r. res = Inr r \<longrightarrow>
           distinct (map id_s (illusts r)) \<and>
           (\<forall>x \<in> set (illusts r). find (\<lambda>y. id_s y = id_s x) (acceptedItems es) = Some x))"
    using run by simp
qed

theorem items_deduplicated_first_seen_witness:
  "(case getRandomTop3
          (demoEnv None noSearch
             (\<lambda>n. if n = 0 then Inr (Some [illustWith 1 0 (Some ''first'')])
                   else Inr (Some [illustWith 1 0 (Some ''second''), illustWith 2 0 (Some ''x'')])))
          demoWorld of
      (res, w', es) \<Rightarrow>
        res = Inr \<lparr>illusts = [safeWith 1 ''first'', safeWith 2 ''x''], totalScanned = 5,
                   r18Filtered = 0, sensitiveFiltered = 0, bannedFiltered = 0\<rparr>
        \<and> acceptedItems es = [safeWith 1 ''first'', safeWith 2 ''x'', safeWith 1 ''second'',
                               safeWith 2 ''x'', safeWith 1 ''second'']
        \<and> find (\<lambda>y. id_s y = id_s (safeWith 1 ''first'')) (acceptedItems es)
            = Some (safeWith 1 ''first''))"
proof -
  let ?E = "demoEnv None noSearch
             (\<lambda>n. if n = 0 then Inr (Some [illustWith 1 0 (Some ''first'')])
                   else Inr (Some [illustWith 1 0 (Some ''second''), illustWith 2 0 (Some ''x'')]))"
  have run: "case getRandomTop3 ?E demoWorld of
      (res, w', es) \<Rightarrow>
        res = Inr \<lparr>illusts = [safeWith 1 ''first'', safeWith 2 ''x''], totalScanned = 5,
                   r18Filtered = 0, sensitiveFiltered = 0, bannedFiltered = 0\<rparr>
        \<and> acceptedItems es = [safeWith 1 ''first'', safeWith 2 ''x'', safeWith 1 ''second'',
                               safeWith 2 ''x'', safeWith 1 ''second'']"
    by (simp add: run_defs acceptedItems_def)
  show ?thesis
    using items_deduplicated_first_seen [where E = ?E and w = demoWorld and kw = "''cat''"] run
    by (auto split: prod.splits)
qed

text \<open>
  C3. \<open>searchTop3\<close> is a total function: its retry loop is defined by recursion on the
  attempt number with the measure \<open>maxRetriesSearch - attempt\<close>, so every session ends,
  whatever the upstream returns. Each attempt issues one upstream search call and
  leaves one entry in the session's list of attempts, and that list never has more than
  5 entries. In particular, when the service is logged in, the result count is positive
  and every upstream response has zero items, the session makes exactly 5 calls and
  returns the empty result.
\<close>

theorem searchTop3_at_most_five_calls:
  "length (snd (snd (searchTop3 E kw w))) \<le> 5
   \<and> (isLoggedIn w \<and> 0 < requiredCount (config E) \<and>
      (\<forall>n off. searchIllust E n kw off = Inr None \<or> searchIllust E n kw off = Inr (Some []))
      \<longrightarrow> length (snd (snd (searchTop3 E kw w))) = 5 \<and>
          fst (searchTop3 E kw w) = Inr emptyResult)"
proof
  obtain res w' es where run: "searchTop3 E kw w = (res, w', es)"
    by (cases "searchTop3 E kw w")
  from run have "length es \<le> 5"
  proof (cases rule: searchTop3_from_loop)
    case refused
    then show ?thesis by simp
  next
    case (ran w0)
    have "length es \<le> maxRetriesSearch - 0"
      using ran by (rule searchLoop_length [OF refl])
    then show ?thesis by (simp add: maxRetriesSearch_def)
  qed
  then show "length (snd (snd (searchTop3 E kw w))) \<le> 5" using run by simp
next
  show "isLoggedIn w \<and> 0 < requiredCount (config E) \<and>
      (\<forall>n off. searchIllust E n kw off = Inr None \<or> searchIllust E n kw off = Inr (Some []))
      \<longrightarrow> length (snd (snd (searchTop3 E kw w))) = 5 \<and>
          fst (searchTop3 E kw w) = Inr emptyResult"
  proof (intro impI, elim conjE)
    assume li: "isLoggedIn w" and pos: "0 < requiredCount (config E)"
      and resp: "\<forall>n off. searchIllust E n kw off = Inr None \<or>
                         searchIllust E n kw off = Inr (Some [])"
    let ?st = "\<lparr>collectedMap = [], totalScannedSum = 0, totalR18Filtered = 0,
                totalSensitiveFiltered = 0, totalBannedFiltered = 0, offsetLevel = 0\<rparr>"
    have eq: "searchTop3 E kw w = searchLoop E kw 0 ?st w"
      using li by (simp add: searchTop3_def ensureLoggedIn_def)
    obtain res w' es where run: "searchLoop E kw 0 ?st w = (res, w', es)"
      by (cases "searchLoop E kw 0 ?st w")
    have "length es = 5 - 0 \<and> res = Inr (collected E ?st)"
      by (rule searchLoop_all_empty [OF resp pos _ _ _ _ run]) simp_all
    then have "length es = 5 \<and> res = Inr emptyResult"
      by (simp add: collected_def slice0_def emptyResult_def)
    then show "length (snd (snd (searchTop3 E kw w))) = 5 \<and>
          fst (searchTop3 E kw w) = Inr emptyResult"
      using eq run by simp
  qed
qed

theorem searchTop3_at_most_five_calls_witness:
  "isLoggedIn demoWorld
   \<and> 0 < requiredCount (config (demoEnv None noSearch noRecommended))
   \<and> length (snd (snd (searchTop3 (demoEnv None noSearch noRecommended) ''cat'' demoWorld))) = 5
   \<and> fst (searchTop3 (demoEnv None noSearch noRecommended) ''cat'' demoWorld) = Inr emptyResult"
proof -
  let ?E = "demoEnv None noSearch noRecommended"
  have li: "isLoggedIn demoWorld"
    by (simp add: demoWorld_def)
  have pos: "0 < requiredCount (config ?E)"
    by (simp add: demoEnv_def requiredCount_def)
  have resp: "\<forall>n off. searchIllust ?E n ''cat'' off = Inr None \<or>
                       searchIllust ?E n ''cat'' off = Inr (Some [])"
    by (simp add: demoEnv_def noSearch_def)
  show ?thesis
    using searchTop3_at_most_five_calls [where E = ?E and w = demoWorld and kw = "''cat''"]
      li pos resp
    by blast
qed



text \<open>
  C10. With a result count that is not negative, every result that \<open>searchTop3\<close> or
  \<open>getRandomTop3\<close> returns, on the return inside the loop as on the return after
  it, holds at most that many items.
\<close>

theorem results_within_resultCount:
  "0 \<le> requiredCount (config E) \<Longrightarrow>
   (\<forall>r. fst (searchTop3 E kw w) = Inr r \<longrightarrow>
      int (length (illusts r)) \<le> requiredCount (config E))
   \<and> (\<forall>r. fst (getRandomTop3 E w) = Inr r \<longrightarrow>
      int (length (illusts r)) \<le> requiredCount (config E))"
proof -
  assume nn: "0 \<le> requiredCount (config E)"
  have s: "\<forall>r. fst (searchTop3 E kw w) = Inr r \<longrightarrow>
      int (length (illusts r)) \<le> requiredCount (config E)"
  proof (intro allI impI)
    fix r assume "fst (searchTop3 E kw w) = Inr r"
    then obtain w' es where "searchTop3 E kw w = (Inr r, w', es)"
      by (cases "searchTop3 E kw w") auto
    from searchTop3_items [OF this] slice0_length [OF nn]
    show "int (length (illusts r)) \<le> requiredCount (config E)" by simp
  qed
  have g: "\<forall>r. fst (getRandomTop3 E w) = Inr r \<longrightarrow>
      int (length (illusts r)) \<le> requiredCount (config E)"
  proof (intro allI impI)
    fix r assume "fst (getRandomTop3 E w) = Inr r"
    then obtain w' es where "getRandomTop3 E w = (Inr r, w', es)"
      by (cases "getRandomTop3 E w") auto
    from getRandomTop3_items [OF this] slice0_length [OF nn]
    show "int (length (illusts r)) \<le> requiredCount (config E)" by simp
  qed
  show ?thesis using s g by simp
qed

theorem results_within_resultCount_witness:
  "requiredCount (config (demoEnv (Some 2) noSearch
      (\<lambda>n. if n = 0 then Inr (Some [illustWith 1 0 (Some ''a'')])
            else Inr (Some [illustWith 2 0 (Some ''b''), illustWith 3 0 (Some ''c'')])))) = 2
   \<and> (case getRandomTop3
            (demoEnv (Some 2) noSearch
               (\<lambda>n. if n = 0 then Inr (Some [illustWith 1 0 (Some ''a'')])
                     else Inr (Some [illustWith 2 0 (Some ''b''), illustWith 3 0 (Some ''c'')])))
            demoWorld of
         (res, w', es) \<Rightarrow>
           res = Inr \<lparr>illusts = [safeWith 1 ''a'', safeWith 3 ''c''], totalScanned = 3,
                      r18Filtered = 0, sensitiveFiltered = 0, bannedFiltered = 0\<rparr>
           \<and> map poolSize es = [1, 3])"
proof -
  let ?E = "demoEnv (Some 2) noSearch
      (\<lambda>n. if n = 0 then Inr (Some [illustWith 1 0 (Some ''a'')])
            else Inr (Some [illustWith 2 0 (Some ''b''), illustWith 3 0 (Some ''c'')]))"
  have rc: "requiredCount (config ?E) = 2"
    by (simp add: demoEnv_def requiredCount_def)
  then have nn: "0 \<le> requiredCount (config ?E)" by simp
  have run: "case getRandomTop3 ?E demoWorld of
         (res, w', es) \<Rightarrow>
           res = Inr \<lparr>illusts = [safeWith 1 ''a'', safeWith 3 ''c''], totalScanned = 3,
                      r18Filtered = 0, sensitiveFiltered = 0, bannedFiltered = 0\<rparr>
           \<and> map poolSize es = [1, 3]"
    by (simp add: run_defs)
  show ?thesis
    using results_within_resultCount [OF nn, where w = demoWorld and kw = "''cat''"] rc run
    by simp
qed

text \<open>
  C5, the code at the input where it departs from the claim. The upstream returns one
  illustration that passes every filter and has no image URL. The first attempt accepts
  nothing and rejects nothing, so \<open>getRandomTop3\<close> takes the \<^verbatim>\<open>break\<close> and the session
  ends after one of its three attempts with an empty result, although the raw batch
  was not empty.
\<close>

theorem getRandomTop3_stops_on_item_without_url:
  "getRandomTop3 (demoEnv None noSearch (\<lambda>n. Inr (Some [illustWith 1 0 None]))) demoWorld
     = (Inr \<lparr>illusts = [], totalScanned = 1, r18Filtered = 0, sensitiveFiltered = 0,
              bannedFiltered = 0\<rparr>,
        demoWorld\<lparr>bannedWords := \<lparr>words = [], loaded = True\<rparr>\<rparr>,
        [\<lparr>raw = Some [illustWith 1 0 None],
          currentResult = \<lparr>illusts = [], totalScanned = 1, r18Filtered = 0,
                           sensitiveFiltered = 0, bannedFiltered = 0\<rparr>,
          poolSize = 0\<rparr>])"
  by (simp add: run_defs)


end
